theory Spec2Isabelle
  imports Main "HOL-Library.Word" "HOL-Library.Signed_Division" "HOL-Library.Monad_Syntax"
begin

unbundle bit_operations_syntax

section \<open>Alignment records\<close>

text \<open>
  An alignment record is the \<open>bam1_t\<close> of htslib as \<open>BamAlignment.cpp\<close> uses it: a header
  (\<open>core\<close>), the payload length \<open>l_data\<close> and one byte buffer \<open>data\<close>. The list \<open>data\<close> is the
  whole allocated buffer (its length is the capacity), of which the first \<open>l_data\<close> bytes are
  the payload. Header fields are read by the source through C's integer promotion, so they
  are modelled as \<open>int\<close>: \<open>l_qname - l_extranul\<close> is a signed difference. The arithmetic is
  exact as long as payload lengths stay below \<open>2 ^ 31\<close>, the range of the C field \<open>l_data\<close>.
\<close>

type_synonym byte = "8 word"

record bam1_core_t =
  flag :: "16 word"
  l_qname :: int
  l_extranul :: int
  n_cigar :: int
  l_qseq :: int

record bam1_t =
  core :: bam1_core_t
  l_data :: int
  data :: "byte list"

subsection \<open>The complement table\<close>

definition rnt_table :: "byte list" where
  "rnt_table = [0, 8, 4, 0, 2, 0, 0, 0, 1, 0, 0, 0, 0, 0, 0, 15]"


subsection \<open>Record layout\<close>

text \<open>
  Modelled from the spec: the accessors of \<open>htslib/sam.h\<close>, which is not part of the
  sources. The buffer holds, in this order, the name (\<open>l_qname\<close> bytes), the CIGAR
  (4 bytes per operation), the packed sequence (two bases per byte), the qualities (one
  byte per base) and the auxiliary block. Each accessor is the offset of its segment in
  \<open>data\<close>; \<open>bam_get_l_aux\<close> is what the payload length leaves for the auxiliary block.
\<close>

definition bam_get_qname :: "bam1_t \<Rightarrow> int" where
  "bam_get_qname r = 0"

definition bam_get_cigar :: "bam1_t \<Rightarrow> int" where
  "bam_get_cigar r = l_qname (core r)"

definition bam_get_seq :: "bam1_t \<Rightarrow> int" where
  "bam_get_seq r = n_cigar (core r) * 4 + l_qname (core r)"

definition bam_get_qual :: "bam1_t \<Rightarrow> int" where
  "bam_get_qual r = n_cigar (core r) * 4 + l_qname (core r) + (l_qseq (core r) + 1) div 2"

definition bam_get_aux :: "bam1_t \<Rightarrow> int" where
  "bam_get_aux r =
     n_cigar (core r) * 4 + l_qname (core r) + (l_qseq (core r) + 1) div 2 + l_qseq (core r)"

definition bam_get_l_aux :: "bam1_t \<Rightarrow> int" where
  "bam_get_l_aux r =
     l_data r - n_cigar (core r) * 4 - l_qname (core r) - l_qseq (core r)
       - (l_qseq (core r) + 1) div 2"

text \<open>
  Modelled from the spec: the flag tests of \<open>BamAlignment.hpp\<close>, which is not part of the
  sources, on the flag bits of the SAM format (paired 0x1, unmapped 0x4, reverse strand
  0x10, first in pair 0x40, second in pair 0x80); the source itself tests 0x40 and 0x80.
\<close>

definition bam_is_paired :: "bam1_t \<Rightarrow> bool" where
  "bam_is_paired r \<longleftrightarrow> flag (core r) AND 0x1 \<noteq> 0"

definition bam_is_mapped :: "bam1_t \<Rightarrow> bool" where
  "bam_is_mapped r \<longleftrightarrow> flag (core r) AND 0x4 = 0"

definition bam_is_rev :: "bam1_t \<Rightarrow> bool" where
  "bam_is_rev r \<longleftrightarrow> flag (core r) AND 0x10 \<noteq> 0"

definition bam_is_read2 :: "bam1_t \<Rightarrow> bool" where
  "bam_is_read2 r \<longleftrightarrow> flag (core r) AND 0x80 \<noteq> 0"

definition bam_is_read1 :: "bam1_t \<Rightarrow> bool" where
  "bam_is_read1 r \<longleftrightarrow> flag (core r) AND 0x40 \<noteq> 0"

subsection \<open>Byte ranges\<close>

text \<open>
  \<open>region d off n\<close> is the \<open>n\<close> bytes of \<open>d\<close> from offset \<open>off\<close>. Reading or writing a
  range that is not inside the buffer is undefined behaviour in C; in the model it is
  \<open>None\<close>. A negative length, which C would convert to a huge \<open>size_t\<close>, is \<open>None\<close> too.
\<close>

definition region :: "byte list \<Rightarrow> int \<Rightarrow> int \<Rightarrow> byte list" where
  "region d off n = take (nat n) (drop (nat off) d)"

definition mem_read :: "byte list \<Rightarrow> int \<Rightarrow> int \<Rightarrow> byte list option" where
  "mem_read d src n =
     (if 0 \<le> src \<and> 0 \<le> n \<and> src + n \<le> int (length d) then Some (region d src n) else None)"

definition mem_write :: "byte list \<Rightarrow> int \<Rightarrow> byte list \<Rightarrow> byte list option" where
  "mem_write d dst new =
     (if 0 \<le> dst \<and> dst + int (length new) \<le> int (length d)
      then Some (take (nat dst) d @ new @ drop (nat dst + length new) d) else None)"

definition memset :: "byte list \<Rightarrow> int \<Rightarrow> byte \<Rightarrow> int \<Rightarrow> byte list option" where
  "memset d dst v n = (if 0 \<le> n then mem_write d dst (replicate (nat n) v) else None)"

definition memmove :: "byte list \<Rightarrow> int \<Rightarrow> int \<Rightarrow> int \<Rightarrow> byte list option" where
  "memmove d dst src n = mem_read d src n \<bind> mem_write d dst"

definition memcpy :: "byte list \<Rightarrow> int \<Rightarrow> byte list \<Rightarrow> int \<Rightarrow> int \<Rightarrow> byte list option" where
  "memcpy d dst s src n = mem_read s src n \<bind> mem_write d dst"

subsection \<open>Helpers of the codec\<close>

text \<open>
  Modelled from the spec: \<open>expand_data_size\<close> of \<open>BamAlignment.hpp\<close>, which is not part of
  the sources. It grows the buffer to the payload length when the buffer is shorter and
  keeps the bytes that are there; \<open>fresh\<close> gives the content of the new bytes, which no
  caller may rely on.
\<close>

definition expand_data_size :: "(nat \<Rightarrow> byte) \<Rightarrow> bam1_t \<Rightarrow> bam1_t" where
  "expand_data_size fresh r =
     (if int (length (data r)) < l_data r
      then r\<lparr>data := data r @ map fresh [length (data r)..<nat (l_data r)]\<rparr> else r)"

text \<open>
  Modelled from the spec: base \<open>i\<close> of a packed sequence is the high half of byte
  \<open>i div 2\<close> when \<open>i\<close> is even and the low half when it is odd (\<open>bam_seqi\<close> of htslib).
\<close>

definition bam_seqi :: "byte list \<Rightarrow> nat \<Rightarrow> byte" where
  "bam_seqi s i = drop_bit (if even i then 4 else 0) (s ! (i div 2)) AND 0xF"

definition bases :: "nat \<Rightarrow> byte list \<Rightarrow> byte list" where
  "bases n s = map (bam_seqi s) [0..<n]"

fun pack_seq :: "byte list \<Rightarrow> byte list" where
  "pack_seq [] = []"
| "pack_seq [x] = [push_bit 4 x]"
| "pack_seq (x # y # xs) = (push_bit 4 x OR y) # pack_seq xs"

definition rnt :: "byte \<Rightarrow> byte" where
  "rnt c = rnt_table ! unat c"

text \<open>
  Modelled from the spec: \<open>copy_rc_seq\<close> and \<open>copy_r_qual\<close> of \<open>BamAlignment.hpp\<close>, which
  is not part of the sources. The first writes the reverse complement of \<open>len\<close> packed
  bases (base order reversed, the complement table applied to every base), the second the
  \<open>len\<close> quality bytes in reverse order. \<open>bases\<close> indexes the \<open>(len + 1) div 2\<close> bytes that
  were read, and \<open>rnt\<close> the 16 entries of the table with a 4-bit code, so every index is
  in range; an odd \<open>len\<close> leaves the low half of the last byte 0.
\<close>

definition copy_rc_seq :: "byte list \<Rightarrow> int \<Rightarrow> byte list \<Rightarrow> int \<Rightarrow> int \<Rightarrow> byte list option" where
  "copy_rc_seq d dst s src len =
     mem_read s src ((len + 1) div 2) \<bind>
       (\<lambda>packed. mem_write d dst (pack_seq (map rnt (rev (bases (nat len) packed)))))"

definition copy_r_qual :: "byte list \<Rightarrow> int \<Rightarrow> byte list \<Rightarrow> int \<Rightarrow> int \<Rightarrow> byte list option" where
  "copy_r_qual d dst s src len = mem_read s src len \<bind> (\<lambda>q. mem_write d dst (rev q))"

subsection \<open>compress and decompress\<close>

definition compress :: "bam1_t \<Rightarrow> bam1_t option" where
  "compress r =
     (let l_aux = bam_get_l_aux r in
      do {
        d1 \<leftarrow> memset (data r) 0 0 4;
        d2 \<leftarrow> memmove d1 4 (bam_get_cigar r) (n_cigar (core r) * 4);
        d3 \<leftarrow> memmove d2 (4 + n_cigar (core r) * 4) (bam_get_aux r) l_aux;
        Some (r\<lparr>data := d3,
                 l_data := 4 + n_cigar (core r) * 4 + l_aux,
                 core := (core r)\<lparr>l_qname := 4, l_extranul := 3, l_qseq := 0\<rparr>\<rparr>)
      })"

text \<open>
  \<open>decompress_header\<close> is the first part of \<open>decompress\<close>: the auxiliary length is
  taken from the old header, the three header fields are copied from the donor and the
  payload length is recomputed. \<open>(l_qseq + 1) / 2\<close> is C's division, which truncates
  towards zero (\<open>sdiv\<close>); the accessors use a right shift (\<open>div\<close>).
\<close>

definition decompress_header :: "bam1_t \<Rightarrow> bam1_t \<Rightarrow> bam1_t" where
  "decompress_header r other =
     (let l_aux = bam_get_l_aux r;
          r1 = r\<lparr>core := (core r)\<lparr>l_qname := l_qname (core other),
                                   l_extranul := l_extranul (core other),
                                   l_qseq := l_qseq (core other)\<rparr>\<rparr>
      in r1\<lparr>l_data := l_qname (core r1) + n_cigar (core r1) * 4
                        + (l_qseq (core r1) + 1) sdiv 2 + l_qseq (core r1) + l_aux\<rparr>)"

definition decompress :: "(nat \<Rightarrow> byte) \<Rightarrow> bam1_t \<Rightarrow> bam1_t \<Rightarrow> bam1_t option" where
  "decompress fresh r other =
     (let l_aux = bam_get_l_aux r;
          r3 = expand_data_size fresh (decompress_header r other)
      in do {
        d1 \<leftarrow> memmove (data r3) (bam_get_aux r3) (4 + n_cigar (core r3) * 4) l_aux;
        d2 \<leftarrow> memmove d1 (bam_get_cigar r3) 4 (n_cigar (core r3) * 4);
        d3 \<leftarrow> memcpy d2 (bam_get_qname r3) (data other) (bam_get_qname other) (l_qname (core r3));
        d5 \<leftarrow> (if bam_is_rev r3 = bam_is_rev other
               then do {
                 d4 \<leftarrow> memcpy d3 (bam_get_seq r3) (data other) (bam_get_seq other)
                         ((l_qseq (core r3) + 1) sdiv 2);
                 memcpy d4 (bam_get_qual r3) (data other) (bam_get_qual other) (l_qseq (core r3))
               }
               else do {
                 d4 \<leftarrow> copy_rc_seq d3 (bam_get_seq r3) (data other) (bam_get_seq other)
                         (l_qseq (core r3));
                 copy_r_qual d4 (bam_get_qual r3) (data other) (bam_get_qual other)
                   (l_qseq (core r3))
               });
        Some (r3\<lparr>data := d5\<rparr>)
      })"

text \<open>
  The segments of a record as byte lists, and the two notions of the spec: a record is
  compacted when its logical name length (name length minus padding nulls) is 1, and
  uncompacted when it is greater than 1.
\<close>

definition qname_bytes :: "bam1_t \<Rightarrow> byte list" where
  "qname_bytes r = region (data r) (bam_get_qname r) (l_qname (core r))"


definition seq_bytes :: "bam1_t \<Rightarrow> byte list" where
  "seq_bytes r = region (data r) (bam_get_seq r) ((l_qseq (core r) + 1) div 2)"

definition qual_bytes :: "bam1_t \<Rightarrow> byte list" where
  "qual_bytes r = region (data r) (bam_get_qual r) (l_qseq (core r))"


definition logical_name_length :: "bam1_t \<Rightarrow> int" where
  "logical_name_length r = l_qname (core r) - l_extranul (core r)"

definition compacted :: "bam1_t \<Rightarrow> bool" where
  "compacted r \<longleftrightarrow> logical_name_length r = 1"

definition uncompacted :: "bam1_t \<Rightarrow> bool" where
  "uncompacted r \<longleftrightarrow> logical_name_length r > 1"

text \<open>
  The layout invariant of a record: no segment has a negative length, the payload length
  is the sum of the five segment lengths (the auxiliary block being what
  \<open>bam_get_l_aux\<close> computes, this says that it is not negative), and the buffer holds the
  payload.
\<close>

definition wf_record :: "bam1_t \<Rightarrow> bool" where
  "wf_record r \<longleftrightarrow>
     0 \<le> l_qname (core r) \<and> 0 \<le> n_cigar (core r) \<and> 0 \<le> l_qseq (core r) \<and>
     0 \<le> bam_get_l_aux r \<and> l_data r \<le> int (length (data r))"


text \<open>
  \<open>compress\<close> writes 4 name bytes, the CIGAR and the auxiliary block from the start of the
  buffer, and \<open>decompress\<close> reads this layout back from the same offsets. A buffer has room
  for it when it has \<open>4 + 4 * n_cigar + l_aux\<close> bytes.
\<close>

definition holds_compacted :: "bam1_t \<Rightarrow> bool" where
  "holds_compacted r \<longleftrightarrow>
     4 + n_cigar (core r) * 4 + bam_get_l_aux r \<le> int (length (data r))"

section \<open>Logical units\<close>

text \<open>
  A \<open>BamAlignment\<close> object holds two pointers to records, \<open>b\<close> and \<open>b2\<close>, which may be
  \<open>NULL\<close> (\<open>None\<close>). Records live in a heap of cells; a pointer is the number of a cell.
  The outcome of an operation is an error or a result: \<open>Fatal\<close> is the exit of
  \<open>general_assert\<close> with its message, \<open>AssertionFailed\<close> the abort of a failed \<open>assert\<close>,
  \<open>UndefinedBehaviour\<close> a null pointer dereference or an access outside a buffer.
\<close>

datatype error = Fatal string | AssertionFailed | UndefinedBehaviour

record BamAlignment =
  is_aligned :: int
  is_paired :: bool
  b :: "nat option"
  b2 :: "nat option"

record heap =
  cells :: "nat \<Rightarrow> bam1_t"
  next_free :: nat

definition empty_bam1 :: bam1_t where
  "empty_bam1 =
     \<lparr>core = \<lparr>flag = 0, l_qname = 0, l_extranul = 0, n_cigar = 0, l_qseq = 0\<rparr>,
      l_data = 0, data = []\<rparr>"

text \<open>
  Modelled from the spec: \<open>bam_init1\<close> of htslib returns a new zeroed record; the new cell
  is the next free one of the heap.
\<close>

definition bam_init1 :: "heap \<Rightarrow> nat \<times> heap" where
  "bam_init1 hp =
     (next_free hp, hp\<lparr>cells := (cells hp)(next_free hp := empty_bam1),
                        next_free := Suc (next_free hp)\<rparr>)"

text \<open>The statement \<open>if (b == NULL) b = bam_init1();\<close>, for either pointer.\<close>

definition ensure_init :: "nat option \<Rightarrow> heap \<Rightarrow> nat \<times> heap" where
  "ensure_init p hp = (case p of None \<Rightarrow> bam_init1 hp | Some a \<Rightarrow> (a, hp))"

text \<open>
  Modelled from the spec: \<open>SamParser::read\<close>, which is not part of the sources, reads the
  next record of the source into the buffer it is given and returns whether there was
  one. The source is the list of the records still to come.
\<close>

fun SamParser_read :: "bam1_t list \<Rightarrow> heap \<Rightarrow> nat \<Rightarrow> bool \<times> bam1_t list \<times> heap" where
  "SamParser_read [] hp a = (False, [], hp)"
| "SamParser_read (x # xs) hp a = (True, xs, hp\<lparr>cells := (cells hp)(a := x)\<rparr>)"

text \<open>
  Reading the second mate: the body of \<open>if (is_paired)\<close> in \<open>read\<close>, with \<open>p1\<close> the
  pointer \<open>b\<close>, which is not \<open>NULL\<close> there.
\<close>

definition read_mate ::
  "nat \<Rightarrow> BamAlignment \<Rightarrow> bam1_t list \<Rightarrow> heap \<Rightarrow> error + (BamAlignment \<times> bam1_t list \<times> heap)" where
  "read_mate p1 this inp hp =
     (let (p2, hp1) = ensure_init (b2 this) hp;
          this1 = this\<lparr>b2 := Some p2\<rparr>;
          (ok, inp1, hp2) = SamParser_read inp hp1 p2;
          f1 = flag (core (cells hp2 p1));
          f2 = flag (core (cells hp2 p2))
      in if \<not> (ok \<and> bam_is_paired (cells hp2 p2))
         then Inl (Fatal ''Fail to read the other mate for a paired-end alignment!'')
         else if \<not> ((f1 AND 0x00C0 = 0x0040 \<and> f2 AND 0x00C0 = 0x0080) \<or>
                     (f1 AND 0x00C0 = 0x0080 \<and> f2 AND 0x00C0 = 0x0040))
         then Inl (Fatal ''Cannot detect both mates of a paired-end alignment!'')
         else if bam_is_read2 (cells hp2 p1)
         then Inr (this1\<lparr>b := Some p2, b2 := Some p1\<rparr>, inp1, hp2)
         else Inr (this1, inp1, hp2))"

text \<open>
  The end of \<open>read\<close>: the alignment status and the two length checks. The parameters
  stand for code that is not part of the sources: \<open>cigar2qlen r\<close> for
  \<open>bam_cigar2qlen\<close> of htslib on the CIGAR of \<open>r\<close>, and \<open>getSeqLength\<close> for
  \<open>o->getSeqLength\<close>. For an unpaired unit the status is 0 or 1, so the second
  \<open>assert\<close> holds without looking at \<open>b2\<close>. The \<open>assert\<close>s are taken as compiled in
  (no \<open>NDEBUG\<close>), as the spec has them.
\<close>

definition read_status ::
  "(bam1_t \<Rightarrow> int) \<Rightarrow> (int \<Rightarrow> int) \<Rightarrow> BamAlignment \<Rightarrow> heap \<Rightarrow> error + BamAlignment" where
  "read_status cigar2qlen getSeqLength this hp =
     (case b this of None \<Rightarrow> Inl UndefinedBehaviour | Some p1 \<Rightarrow>
      let r1 = cells hp p1;
          al1 = (if bam_is_mapped r1 then 1 else 0 :: int);
          tmp_len = (if l_qseq (core r1) \<le> 0 then getSeqLength 1 else l_qseq (core r1))
      in if \<not> is_paired this
         then (if \<not> (al1 AND 1 = 0 \<or> tmp_len = cigar2qlen r1) then Inl AssertionFailed
               else Inr (this\<lparr>is_aligned := al1\<rparr>))
         else (case b2 this of None \<Rightarrow> Inl UndefinedBehaviour | Some p2 \<Rightarrow>
           let r2 = cells hp p2;
               al = al1 OR push_bit 1 (if bam_is_mapped r2 then 1 else 0);
               tmp_len2 = (if l_qseq (core r2) \<le> 0 then getSeqLength 2 else l_qseq (core r2))
           in if \<not> (al AND 1 = 0 \<or> tmp_len = cigar2qlen r1) then Inl AssertionFailed
              else if \<not> (al AND 2 = 0 \<or> tmp_len2 = cigar2qlen r2) then Inl AssertionFailed
              else Inr (this\<lparr>is_aligned := al\<rparr>)))"

definition read ::
  "(bam1_t \<Rightarrow> int) \<Rightarrow> (int \<Rightarrow> int) \<Rightarrow> BamAlignment \<Rightarrow> bam1_t list \<Rightarrow> heap
     \<Rightarrow> error + (bool \<times> BamAlignment \<times> bam1_t list \<times> heap)" where
  "read cigar2qlen getSeqLength this inp hp =
     (let (p1, hp1) = ensure_init (b this) hp;
          this1 = this\<lparr>is_aligned := - 1, b := Some p1\<rparr>;
          (ok, inp1, hp2) = SamParser_read inp hp1 p1
      in if \<not> ok then Inr (False, this1, inp1, hp2)
         else
           let this2 = this1\<lparr>is_paired := bam_is_paired (cells hp2 p1)\<rparr> in
           case (if is_paired this2 then read_mate p1 this2 inp1 hp2 else Inr (this2, inp1, hp2)) of
             Inl e \<Rightarrow> Inl e
           | Inr (this3, inp3, hp3) \<Rightarrow>
               (case read_status cigar2qlen getSeqLength this3 hp3 of
                  Inl e \<Rightarrow> Inl e
                | Inr this4 \<Rightarrow> Inr (True, this4, inp3, hp3)))"

text \<open>
  The mate flags of two records are complementary when one is flagged first in pair and
  not second, and the other second in pair and not first.
\<close>

definition mates_complementary :: "bam1_t \<Rightarrow> bam1_t \<Rightarrow> bool" where
  "mates_complementary r1 r2 \<longleftrightarrow>
     (bam_is_read1 r1 \<and> \<not> bam_is_read2 r1 \<and> bam_is_read2 r2 \<and> \<not> bam_is_read1 r2) \<or>
     (bam_is_read2 r1 \<and> \<not> bam_is_read1 r1 \<and> bam_is_read1 r2 \<and> \<not> bam_is_read2 r2)"

subsection \<open>Writing a unit\<close>

text \<open>
  The first two statements of \<open>write\<close> after its \<open>assert\<close>: a record whose name-length
  field is 1 gets the sequence length 0. \<open>p1\<close> is the pointer \<open>b\<close> and \<open>p2\<close> the pointer
  \<open>b2\<close>, which the \<open>assert\<close> has found not \<open>NULL\<close> when the unit is paired.
\<close>

definition reset_l_qseq :: "nat \<Rightarrow> heap \<Rightarrow> heap" where
  "reset_l_qseq p hp =
     (if l_qname (core (cells hp p)) = 1
      then hp\<lparr>cells := (cells hp)(p := (cells hp p)\<lparr>core := (core (cells hp p))\<lparr>l_qseq := 0\<rparr>\<rparr>)\<rparr>
      else hp)"

definition write_reset :: "BamAlignment \<Rightarrow> nat \<Rightarrow> nat option \<Rightarrow> heap \<Rightarrow> heap" where
  "write_reset this p1 p2 hp =
     (let hp1 = reset_l_qseq p1 hp
      in case p2 of Some q \<Rightarrow> (if is_paired this then reset_l_qseq q hp1 else hp1)
                  | None \<Rightarrow> hp1)"

text \<open>
  A call \<open>compress(b)\<close> or \<open>decompress(b, o->b)\<close> on the record that a pointer names.
  The donor pointer is read through \<open>o\<close>; dereferencing \<open>NULL\<close> is undefined behaviour,
  and so is a donor that is the record itself (\<open>memcpy\<close> on one buffer).
\<close>

definition compress_at :: "nat \<Rightarrow> heap \<Rightarrow> error + heap" where
  "compress_at p hp =
     (case compress (cells hp p) of
        None \<Rightarrow> Inl UndefinedBehaviour
      | Some r \<Rightarrow> Inr (hp\<lparr>cells := (cells hp)(p := r)\<rparr>))"

definition decompress_at :: "(nat \<Rightarrow> byte) \<Rightarrow> nat \<Rightarrow> nat option \<Rightarrow> heap \<Rightarrow> error + heap" where
  "decompress_at fresh p donor hp =
     (case donor of
        None \<Rightarrow> Inl UndefinedBehaviour
      | Some q \<Rightarrow>
          if q = p then Inl UndefinedBehaviour
          else (case decompress fresh (cells hp p) (cells hp q) of
                  None \<Rightarrow> Inl UndefinedBehaviour
                | Some r \<Rightarrow> Inr (hp\<lparr>cells := (cells hp)(p := r)\<rparr>)))"

text \<open>
  The \<open>switch\<close> of \<open>write\<close>. In case 2 the test for the second mate is the one of the
  source: the name length of \<open>b2\<close> minus the padding-null count of \<open>b\<close>, read after the
  first mate has been handled.
\<close>

definition write_action ::
  "(nat \<Rightarrow> byte) \<Rightarrow> BamAlignment \<Rightarrow> nat \<Rightarrow> nat option \<Rightarrow> int \<Rightarrow> BamAlignment option \<Rightarrow> heap
     \<Rightarrow> error + heap" where
  "write_action fresh this p1 p2 choice o_unit hp =
     (if choice = 0 then Inr hp
      else if choice = 1 then
        (case (if l_qname (core (cells hp p1)) - l_extranul (core (cells hp p1)) > 1
               then compress_at p1 hp else Inr hp) of
           Inl e \<Rightarrow> Inl e
         | Inr hp1 \<Rightarrow>
             (case p2 of
                Some q \<Rightarrow>
                  if is_paired this \<and>
                     l_qname (core (cells hp1 q)) - l_extranul (core (cells hp1 q)) > 1
                  then compress_at q hp1 else Inr hp1
              | None \<Rightarrow> Inr hp1))
      else if choice = 2 then
        (case (if l_qname (core (cells hp p1)) - l_extranul (core (cells hp p1)) = 1
               then (case o_unit of None \<Rightarrow> Inl UndefinedBehaviour
                     | Some ou \<Rightarrow> decompress_at fresh p1 (b ou) hp)
               else Inr hp) of
           Inl e \<Rightarrow> Inl e
         | Inr hp1 \<Rightarrow>
             (case p2 of
                Some q \<Rightarrow>
                  if is_paired this \<and>
                     l_qname (core (cells hp1 q)) - l_extranul (core (cells hp1 p1)) = 1
                  then (case o_unit of None \<Rightarrow> Inl UndefinedBehaviour
                        | Some ou \<Rightarrow> decompress_at fresh q (b2 ou) hp1)
                  else Inr hp1
              | None \<Rightarrow> Inr hp1))
      else Inl AssertionFailed)"

text \<open>
  Modelled from the spec: \<open>BamWriter::write\<close>, which is not part of the sources, is the
  record sink; it appends the record to the list of the records written.
\<close>

definition BamWriter_write :: "bam1_t list \<Rightarrow> bam1_t \<Rightarrow> bam1_t list" where
  "BamWriter_write out r = out @ [r]"

definition "write" ::
  "(nat \<Rightarrow> byte) \<Rightarrow> BamAlignment \<Rightarrow> bam1_t list \<Rightarrow> int \<Rightarrow> BamAlignment option \<Rightarrow> heap
     \<Rightarrow> error + (bool \<times> heap \<times> bam1_t list)" where
  "write fresh this out choice o_unit hp =
     (case b this of
        None \<Rightarrow> Inl AssertionFailed
      | Some p1 \<Rightarrow>
          if \<not> (is_aligned this \<ge> 0 \<and> (\<not> is_paired this \<or> b2 this \<noteq> None))
          then Inl AssertionFailed
          else
            (case write_action fresh this p1 (b2 this) choice o_unit
                    (write_reset this p1 (b2 this) hp) of
               Inl e \<Rightarrow> Inl e
             | Inr hp2 \<Rightarrow>
                 let out1 = BamWriter_write out (cells hp2 p1);
                     out2 = (case b2 this of
                               Some q \<Rightarrow> if is_paired this then BamWriter_write out1 (cells hp2 q)
                                         else out1
                             | None \<Rightarrow> out1)
                 in Inr (True, hp2, out2)))"


subsection \<open>Example records\<close>

text \<open>
  The scenario of the spec: a donor on the forward strand with the name \<open>r1\<close> (padded to 4
  bytes by one extra null), one CIGAR operation \<open>4M\<close>, the bases A, C, G, T (codes 1, 2, 4,
  8, packed as 0x12 0x48), the qualities 10, 20, 30, 40 and four auxiliary bytes; and a
  compacted record of the same read on the reverse strand, in a buffer of exactly its
  payload length.
\<close>

definition example_donor :: bam1_t where
  "example_donor =
     \<lparr>core = \<lparr>flag = 0, l_qname = 4, l_extranul = 1, n_cigar = 1, l_qseq = 4\<rparr>,
      l_data = 18,
      data = [114, 49, 0, 0, 0x40, 0, 0, 0, 0x12, 0x48, 10, 20, 30, 40, 78, 72, 67, 1]\<rparr>"

definition example_compacted :: bam1_t where
  "example_compacted =
     \<lparr>core = \<lparr>flag = 0x10, l_qname = 4, l_extranul = 3, n_cigar = 1, l_qseq = 0\<rparr>,
      l_data = 12,
      data = [0, 0, 0, 0, 0x40, 0, 0, 0, 78, 72, 67, 1]\<rparr>"


text \<open>
  A new \<open>BamAlignment\<close> object with no buffers, the heap with no record allocated, and
  a record with another flag word.
\<close>

definition with_flag :: "16 word \<Rightarrow> bam1_t \<Rightarrow> bam1_t" where
  "with_flag f r = r\<lparr>core := (core r)\<lparr>flag := f\<rparr>\<rparr>"

definition new_unit :: BamAlignment where
  "new_unit = \<lparr>is_aligned = - 1, is_paired = False, b = None, b2 = None\<rparr>"

definition empty_heap :: heap where
  "empty_heap = \<lparr>cells = (\<lambda>_. empty_bam1), next_free = 0\<rparr>"

text \<open>
  A paired unit whose two mates are compacted (cells 0 and 1), and the donor unit of the
  same read, whose mates carry the name \<open>r1\<close> with one padding null (cells 2 and 3).
  Flag 0x63 is paired, proper, mate reverse, first in pair; 0x93 is paired, proper,
  reverse, second in pair.
\<close>

definition pair_unit :: BamAlignment where
  "pair_unit = \<lparr>is_aligned = 3, is_paired = True, b = Some 0, b2 = Some 1\<rparr>"

definition donor_unit :: BamAlignment where
  "donor_unit = \<lparr>is_aligned = 3, is_paired = True, b = Some 2, b2 = Some 3\<rparr>"

definition pair_heap :: heap where
  "pair_heap =
     \<lparr>cells = (\<lambda>_. empty_bam1)
        (0 := with_flag 0x63 example_compacted, 1 := with_flag 0x93 example_compacted,
         2 := with_flag 0x63 example_donor, 3 := with_flag 0x93 example_donor),
      next_free = 4\<rparr>"

text \<open>
  A record in the legacy compacted form, with the name-length field 1 and a stale sequence
  length 4, as mate 1 of a pair whose mate 2 is a full record.
\<close>

definition legacy_record :: bam1_t where
  "legacy_record =
     \<lparr>core = \<lparr>flag = 0x63, l_qname = 1, l_extranul = 0, n_cigar = 1, l_qseq = 4\<rparr>,
      l_data = 9,
      data = [0, 0x40, 0, 0, 0, 78, 72, 67, 1]\<rparr>"

definition legacy_heap :: heap where
  "legacy_heap =
     \<lparr>cells = (\<lambda>_. empty_bam1)(0 := legacy_record, 1 := with_flag 0x93 example_donor),
      next_free = 2\<rparr>"

section \<open>Properties\<close>

subsection \<open>Byte ranges\<close>

lemma length_region:
  "0 \<le> off \<Longrightarrow> 0 \<le> n \<Longrightarrow> off + n \<le> int (length d) \<Longrightarrow> length (region d off n) = nat n"
  by (simp add: region_def) 

lemma mem_write_length:
  "mem_write d dst new = Some d' \<Longrightarrow> length d' = length d"
  by (auto simp: mem_write_def split: if_splits)

lemma mem_write_hit:
  "mem_write d dst new = Some d' \<Longrightarrow> region d' dst (int (length new)) = new"
  by (auto simp: mem_write_def region_def split: if_splits)

lemma mem_write_frame_below:
  assumes "mem_write d dst new = Some d'" "0 \<le> a" "a + n \<le> dst"
  shows "region d' a n = region d a n"
proof -
  from assms(1) have d': "d' = take (nat dst) d @ new @ drop (nat dst + length new) d"
    and b: "0 \<le> dst" "dst + int (length new) \<le> int (length d)"
    by (auto simp: mem_write_def split: if_splits)
  show ?thesis
  proof (cases "n \<le> 0")
    case True
    then show ?thesis by (simp add: region_def)
  next
    case False
    then have le: "nat a + nat n \<le> nat dst" using assms(2,3) by linarith
    have ld: "nat dst \<le> length d" using b by linarith
    let ?p = "take (nat dst) d"
    have lp: "length ?p = nat dst" using ld by simp
    have "take (nat n) (drop (nat a) (?p @ new @ drop (nat dst + length new) d))
        = take (nat n) (drop (nat a) ?p)"
      using le lp by simp
    also have "\<dots> = take (nat n) (take (nat dst - nat a) (drop (nat a) d))"
      by (simp only: drop_take)
    also have "\<dots> = take (nat n) (drop (nat a) d)"
      using le by (simp add: min_def)
    finally show ?thesis unfolding region_def d' .
  qed
qed

lemma mem_write_frame_above:
  assumes "mem_write d dst new = Some d'" "dst + int (length new) \<le> a"
  shows "region d' a n = region d a n"
proof -
  from assms(1) have d': "d' = take (nat dst) d @ new @ drop (nat dst + length new) d"
    and b: "0 \<le> dst" "dst + int (length new) \<le> int (length d)"
    by (auto simp: mem_write_def split: if_splits)
  have le: "nat dst + length new \<le> nat a" using assms(2) b by linarith
  have ld: "nat dst \<le> length d" using b by linarith
  have "drop (nat a) d' = drop (nat a) d"
  proof -
    have "drop (nat a) d' = drop (nat a - (nat dst + length new)) (drop (nat dst + length new) d)"
      unfolding d' using le ld by (simp add: min_def)
    also have "\<dots> = drop (nat a) d" using le by simp
    finally show ?thesis .
  qed
  then show ?thesis by (simp add: region_def)
qed

lemma mem_read_Some:
  "0 \<le> src \<Longrightarrow> 0 \<le> n \<Longrightarrow> src + n \<le> int (length d) \<Longrightarrow> mem_read d src n = Some (region d src n)"
  by (simp add: mem_read_def)

lemma mem_write_Some:
  "0 \<le> dst \<Longrightarrow> dst + int (length new) \<le> int (length d) \<Longrightarrow> \<exists>d'. mem_write d dst new = Some d'"
  by (simp add: mem_write_def)

lemma memmove_memcpy: "memmove d dst src n = memcpy d dst d src n"
  by (simp add: memmove_def memcpy_def)

lemma memcpy_Some:
  assumes "0 \<le> src" "0 \<le> n" "src + n \<le> int (length s)" "0 \<le> dst" "dst + n \<le> int (length d)"
  shows "\<exists>d'. memcpy d dst s src n = Some d'"
proof -
  have "length (region s src n) = nat n" using assms by (simp add: length_region)
  then have "\<exists>d'. mem_write d dst (region s src n) = Some d'"
    using assms by (intro mem_write_Some) auto
  then show ?thesis using assms by (auto simp: memcpy_def mem_read_def)
qed

lemma memcpy_props:
  assumes "memcpy d dst s src n = Some d'"
  shows "length d' = length d"
    and "region d' dst n = region s src n"
    and "0 \<le> a \<Longrightarrow> a + m \<le> dst \<Longrightarrow> region d' a m = region d a m"
    and "dst + n \<le> a \<Longrightarrow> region d' a m = region d a m"
proof -
  from assms have rd: "0 \<le> src" "0 \<le> n" "src + n \<le> int (length s)"
    and w: "mem_write d dst (region s src n) = Some d'"
    by (auto simp: memcpy_def mem_read_def split: if_splits)
  have len: "int (length (region s src n)) = n" using rd by (simp add: length_region)
  show "length d' = length d" using w by (rule mem_write_length)
  show "region d' dst n = region s src n" using mem_write_hit [OF w] len by simp
  show "0 \<le> a \<Longrightarrow> a + m \<le> dst \<Longrightarrow> region d' a m = region d a m"
    using w by (rule mem_write_frame_below)
  show "dst + n \<le> a \<Longrightarrow> region d' a m = region d a m"
    using mem_write_frame_above [OF w] len by simp
qed

lemma memset_Some:
  assumes "0 \<le> n" "0 \<le> dst" "dst + n \<le> int (length d)"
  shows "\<exists>d'. memset d dst v n = Some d'"
  using assms by (auto simp: memset_def mem_write_def)

lemma memset_props:
  assumes "memset d dst v n = Some d'"
  shows "length d' = length d"
    and "dst + n \<le> a \<Longrightarrow> region d' a m = region d a m"
proof -
  from assms have n: "0 \<le> n" and w: "mem_write d dst (replicate (nat n) v) = Some d'"
    by (auto simp: memset_def split: if_splits)
  show "length d' = length d" using w by (rule mem_write_length)
  show "dst + n \<le> a \<Longrightarrow> region d' a m = region d a m"
    using mem_write_frame_above [OF w] n by simp
qed


lemma length_pack_seq: "length (pack_seq xs) = (length xs + 1) div 2"
  by (induction xs rule: pack_seq.induct) simp_all

lemma sdiv_2_nonneg: "0 \<le> k \<Longrightarrow> (k + 1) sdiv 2 = (k + 1) div (2::int)"
  by (simp add: signed_divide_int_def sgn_if)

lemma copy_rc_seq_Some:
  assumes "0 \<le> src" "0 \<le> len" "src + (len + 1) div 2 \<le> int (length s)" "0 \<le> dst"
    "dst + (len + 1) div 2 \<le> int (length d)"
  shows "\<exists>d'. copy_rc_seq d dst s src len = Some d'"
proof -
  have "int (length (pack_seq (map rnt (rev (bases (nat len) (region s src ((len + 1) div 2))))))) = (len + 1) div 2"
    using assms(2) by (simp add: length_pack_seq bases_def)
  then have "\<exists>d'. mem_write d dst (pack_seq (map rnt (rev (bases (nat len) (region s src ((len + 1) div 2)))))) = Some d'"
    using assms by (intro mem_write_Some) simp_all
  moreover have "0 \<le> (len + 1) div 2" using assms(2) by simp
  ultimately show ?thesis using assms by (simp add: copy_rc_seq_def mem_read_def)
qed

lemma copy_rc_seq_props:
  assumes "copy_rc_seq d dst s src len = Some d'" "0 \<le> len"
  shows "length d' = length d"
    and "region d' dst ((len + 1) div 2) =
           pack_seq (map rnt (rev (bases (nat len) (region s src ((len + 1) div 2)))))"
    and "0 \<le> a \<Longrightarrow> a + m \<le> dst \<Longrightarrow> region d' a m = region d a m"
    and "dst + (len + 1) div 2 \<le> a \<Longrightarrow> region d' a m = region d a m"
proof -
  let ?new = "pack_seq (map rnt (rev (bases (nat len) (region s src ((len + 1) div 2)))))"
  from assms(1) have w: "mem_write d dst ?new = Some d'"
    by (auto simp: copy_rc_seq_def mem_read_def split: if_splits)
  have len: "int (length ?new) = (len + 1) div 2"
    using assms(2) by (simp add: length_pack_seq bases_def)
  show "length d' = length d" using w by (rule mem_write_length)
  show "region d' dst ((len + 1) div 2) = ?new" using mem_write_hit [OF w] len by simp
  show "0 \<le> a \<Longrightarrow> a + m \<le> dst \<Longrightarrow> region d' a m = region d a m"
    using w by (rule mem_write_frame_below)
  show "dst + (len + 1) div 2 \<le> a \<Longrightarrow> region d' a m = region d a m"
    using mem_write_frame_above [OF w] len by simp
qed

lemma copy_r_qual_Some:
  assumes "0 \<le> src" "0 \<le> len" "src + len \<le> int (length s)" "0 \<le> dst"
    "dst + len \<le> int (length d)"
  shows "\<exists>d'. copy_r_qual d dst s src len = Some d'"
proof -
  have "length (region s src len) = nat len" using assms by (simp add: length_region)
  then have "\<exists>d'. mem_write d dst (rev (region s src len)) = Some d'"
    using assms by (intro mem_write_Some) simp_all
  then show ?thesis using assms by (simp add: copy_r_qual_def mem_read_def)
qed

lemma copy_r_qual_props:
  assumes "copy_r_qual d dst s src len = Some d'"
  shows "length d' = length d"
    and "region d' dst len = rev (region s src len)"
    and "0 \<le> a \<Longrightarrow> a + m \<le> dst \<Longrightarrow> region d' a m = region d a m"
proof -
  from assms have rd: "0 \<le> src" "0 \<le> len" "src + len \<le> int (length s)"
    and w: "mem_write d dst (rev (region s src len)) = Some d'"
    by (auto simp: copy_r_qual_def mem_read_def split: if_splits)
  have len: "int (length (rev (region s src len))) = len" using rd by (simp add: length_region)
  show "length d' = length d" using w by (rule mem_write_length)
  show "region d' dst len = rev (region s src len)" using mem_write_hit [OF w] len by simp
  show "0 \<le> a \<Longrightarrow> a + m \<le> dst \<Longrightarrow> region d' a m = region d a m"
    using w by (rule mem_write_frame_below)
qed

subsection \<open>Packed bases\<close>

lemma fifteen_mask: "(0xF :: byte) = mask 4"
  by (simp add: mask_eq_exp_minus_1)

lemma nibble_high:
  "drop_bit 4 (push_bit 4 (x AND 0xF) OR (y AND 0xF)) AND 0xF = (x AND 0xF :: byte)"
  unfolding fifteen_mask
  by (rule bit_eqI) (auto simp: bit_simps)

lemma nibble_low:
  "(push_bit 4 (x AND 0xF) OR (y AND 0xF)) AND 0xF = (y AND 0xF :: byte)"
  unfolding fifteen_mask
  by (rule bit_eqI) (auto simp: bit_simps)

lemma nibble_last:
  "drop_bit 4 (push_bit 4 (x AND 0xF)) AND 0xF = (x AND 0xF :: byte)"
  unfolding fifteen_mask
  by (rule bit_eqI) (auto simp: bit_simps)


lemma bam_seqi_Cons_Suc_Suc: "bam_seqi (z # s) (Suc (Suc j)) = bam_seqi s j"
  by (simp add: bam_seqi_def)

lemma bam_seqi_pack_seq:
  "\<forall>x\<in>set xs. x AND 0xF = x \<Longrightarrow> i < length xs \<Longrightarrow> bam_seqi (pack_seq xs) i = xs ! i"
proof (induction xs arbitrary: i rule: pack_seq.induct)
  case 1
  then show ?case by simp
next
  case (2 x)
  then have "x AND 0xF = x" "i = 0" by simp_all
  then show ?case using nibble_last [of x] by (simp add: bam_seqi_def)
next
  case (3 x y xs)
  then have x: "x AND 0xF = x" and y: "y AND 0xF = y" by simp_all
  consider "i = 0" | "i = 1" | j where "i = Suc (Suc j)"
    by (metis One_nat_def not0_implies_Suc)
  then show ?case
  proof cases
    case 1
    then show ?thesis using nibble_high [of x y] x y by (simp add: bam_seqi_def)
  next
    case 2
    then show ?thesis using nibble_low [of x y] x y by (simp add: bam_seqi_def)
  next
    case 3
    then show ?thesis using "3.IH" [of j] "3.prems" by (simp add: bam_seqi_Cons_Suc_Suc)
  qed
qed

lemma bases_pack_seq:
  assumes "\<forall>x\<in>set xs. x AND 0xF = x"
  shows "bases (length xs) (pack_seq xs) = xs"
  by (rule nth_equalityI) (simp_all add: bases_def bam_seqi_pack_seq [OF assms])

lemma bam_seqi_nibble: "bam_seqi s i AND 0xF = bam_seqi s i"
  by (simp add: bam_seqi_def and.assoc)

lemma unat_nibble: "unat (c AND 0xF :: byte) < 16"
proof -
  have "c AND 0xF \<le> 0xF" by (rule word_and_le1)
  then have "unat (c AND 0xF) \<le> 15" by (simp add: word_le_nat_alt)
  then show ?thesis by simp
qed

lemma rnt_nibble: "rnt (bam_seqi s i) AND 0xF = rnt (bam_seqi s i)"
proof -
  have "unat (bam_seqi s i) < 16"
    using unat_nibble [of "bam_seqi s i"] by (simp add: bam_seqi_nibble)
  then have "unat (bam_seqi s i) \<in> {0, 1, 2, 3, 4, 5, 6, 7, 8, 9, 10, 11, 12, 13, 14, 15}"
    by (simp only: insert_iff empty_iff) arith
  then show ?thesis by (auto simp: rnt_def rnt_table_def)
qed

lemma bases_reverse_complement:
  "bases n (pack_seq (map rnt (rev (bases n s)))) = map rnt (rev (bases n s))"
proof -
  let ?ys = "map rnt (rev (bases n s))"
  have "\<forall>x\<in>set ?ys. x AND 0xF = x"
    by (auto simp: bases_def rnt_nibble)
  from bases_pack_seq [OF this] show ?thesis by (simp add: bases_def)
qed

subsection \<open>The codec\<close>

lemma expand_data_size_props:
  "core (expand_data_size fresh r) = core r"
  "l_data (expand_data_size fresh r) = l_data r"
  "l_data r \<le> int (length (data (expand_data_size fresh r)))"
  "length (data r) \<le> length (data (expand_data_size fresh r))"
  by (auto simp: expand_data_size_def)

lemma decompress_spec:
  assumes wf: "wf_record r" and room: "holds_compacted r" and wfo: "wf_record other"
  shows "\<exists>x. decompress fresh r other = Some x \<and>
           core x = (core r)\<lparr>l_qname := l_qname (core other),
                               l_extranul := l_extranul (core other),
                               l_qseq := l_qseq (core other)\<rparr> \<and>
           l_data x = l_qname (core other) + n_cigar (core r) * 4
                      + (l_qseq (core other) + 1) div 2 + l_qseq (core other) + bam_get_l_aux r \<and>
           l_data x \<le> int (length (data x)) \<and>
           qname_bytes x = qname_bytes other \<and>
           (bam_is_rev r = bam_is_rev other \<longrightarrow>
              seq_bytes x = seq_bytes other \<and> qual_bytes x = qual_bytes other) \<and>
           (bam_is_rev r \<noteq> bam_is_rev other \<longrightarrow>
              seq_bytes x = pack_seq (map rnt (rev (bases (nat (l_qseq (core other))) (seq_bytes other)))) \<and>
              qual_bytes x = rev (qual_bytes other))"
proof -
  let ?Q = "l_qname (core other)" and ?S = "l_qseq (core other)"
  let ?H = "(l_qseq (core other) + 1) div 2"
  let ?n4 = "n_cigar (core r) * 4" and ?aux = "bam_get_l_aux r"
  define r3 where "r3 = expand_data_size fresh (decompress_header r other)"
  from wf have nn: "0 \<le> ?n4" "0 \<le> ?aux" by (simp_all add: wf_record_def)
  from wfo have no: "0 \<le> ?Q" "0 \<le> ?S" "0 \<le> n_cigar (core other)" "0 \<le> bam_get_l_aux other"
    and capo: "l_data other \<le> int (length (data other))"
    by (simp_all add: wf_record_def)
  have H0: "0 \<le> ?H" using no(2) by simp
  have sd: "(?S + 1) sdiv 2 = ?H" using no(2) by (rule sdiv_2_nonneg)
  have hcore: "core (decompress_header r other) =
      (core r)\<lparr>l_qname := ?Q, l_extranul := l_extranul (core other), l_qseq := ?S\<rparr>"
    and hlen: "l_data (decompress_header r other) = ?Q + ?n4 + ?H + ?S + ?aux"
    by (simp_all add: decompress_header_def Let_def sd)
  have hdata: "data (decompress_header r other) = data r"
    by (simp add: decompress_header_def Let_def)
  have c3: "core r3 = (core r)\<lparr>l_qname := ?Q, l_extranul := l_extranul (core other), l_qseq := ?S\<rparr>"
    and l3: "l_data r3 = ?Q + ?n4 + ?H + ?S + ?aux"
    and cap3: "?Q + ?n4 + ?H + ?S + ?aux \<le> int (length (data r3))"
    and old3: "length (data r) \<le> length (data r3)"
    using expand_data_size_props [where fresh = fresh and r = "decompress_header r other"]
    unfolding r3_def hcore hlen hdata by simp_all
  have room3: "4 + ?n4 + ?aux \<le> int (length (data r3))"
    using room old3 by (simp add: holds_compacted_def)
  have offs: "bam_get_qname r3 = 0" "bam_get_cigar r3 = ?Q" "bam_get_seq r3 = ?n4 + ?Q"
    "bam_get_qual r3 = ?n4 + ?Q + ?H" "bam_get_aux r3 = ?n4 + ?Q + ?H + ?S"
    "n_cigar (core r3) = n_cigar (core r)" "l_qname (core r3) = ?Q" "l_qseq (core r3) = ?S"
    by (simp_all add: c3 bam_get_qname_def bam_get_cigar_def bam_get_seq_def bam_get_qual_def
        bam_get_aux_def)
  have rev3: "bam_is_rev r3 = bam_is_rev r" by (simp add: bam_is_rev_def c3)
  have osum: "l_data other = bam_get_aux other + bam_get_l_aux other"
    by (simp add: bam_get_aux_def bam_get_l_aux_def)
  have oseq: "0 \<le> bam_get_seq other" "bam_get_seq other + ?H = bam_get_qual other"
    "0 \<le> bam_get_qual other" "bam_get_qual other + ?S = bam_get_aux other"
    "bam_get_aux other \<le> int (length (data other))" "?Q \<le> bam_get_seq other"
    using no H0 capo osum
    by (simp_all add: bam_get_seq_def bam_get_qual_def bam_get_aux_def)
  have "\<exists>d1. memcpy (data r3) (?n4 + ?Q + ?H + ?S) (data r3) (4 + ?n4) ?aux = Some d1"
    by (rule memcpy_Some) (use nn no H0 room3 cap3 in simp_all)
  then obtain d1 where d1: "memcpy (data r3) (?n4 + ?Q + ?H + ?S) (data r3) (4 + ?n4) ?aux = Some d1" ..
  note p1 = memcpy_props [OF d1]
  have "\<exists>d2. memcpy d1 ?Q d1 4 ?n4 = Some d2"
    by (rule memcpy_Some) (use nn no H0 room3 cap3 p1(1) in simp_all)
  then obtain d2 where d2: "memcpy d1 ?Q d1 4 ?n4 = Some d2" ..
  note p2 = memcpy_props [OF d2]
  have "\<exists>d3. memcpy d2 0 (data other) 0 ?Q = Some d3"
    by (rule memcpy_Some) (use nn no H0 oseq cap3 p1(1) p2(1) in simp_all)
  then obtain d3 where d3: "memcpy d2 0 (data other) 0 ?Q = Some d3" ..
  note p3 = memcpy_props [OF d3]
  have len3: "length d3 = length (data r3)" using p1(1) p2(1) p3(1) by simp
  have qn: "qname_bytes other = region (data other) 0 ?Q"
    and sq: "seq_bytes other = region (data other) (bam_get_seq other) ?H"
    and ql: "qual_bytes other = region (data other) (bam_get_qual other) ?S"
    by (simp_all add: qname_bytes_def seq_bytes_def qual_bytes_def bam_get_qname_def)
  show ?thesis
  proof (cases "bam_is_rev r = bam_is_rev other")
    case True
    have "\<exists>d4. memcpy d3 (?n4 + ?Q) (data other) (bam_get_seq other) ?H = Some d4"
      by (rule memcpy_Some) (use nn no H0 oseq cap3 len3 in simp_all)
    then obtain d4 where d4: "memcpy d3 (?n4 + ?Q) (data other) (bam_get_seq other) ?H = Some d4" ..
    note p4 = memcpy_props [OF d4]
    have "\<exists>d5. memcpy d4 (?n4 + ?Q + ?H) (data other) (bam_get_qual other) ?S = Some d5"
      by (rule memcpy_Some) (use nn no H0 oseq cap3 len3 p4(1) in simp_all)
    then obtain d5 where d5: "memcpy d4 (?n4 + ?Q + ?H) (data other) (bam_get_qual other) ?S = Some d5" ..
    note p5 = memcpy_props [OF d5]
    have run: "decompress fresh r other = Some (r3\<lparr>data := d5\<rparr>)"
      using True
      by (simp add: decompress_def Let_def r3_def [symmetric] offs rev3 memmove_memcpy sd
          bam_get_qname_def d1 d2 d3 d4 d5)
    have nm: "region d5 0 ?Q = qname_bytes other"
    proof -
      have "region d5 0 ?Q = region d4 0 ?Q" by (rule p5(3)) (use nn H0 in simp_all)
      also have "\<dots> = region d3 0 ?Q" by (rule p4(3)) (use nn in simp_all)
      also have "\<dots> = region (data other) 0 ?Q" by (rule p3(2))
      finally show ?thesis by (simp add: qn)
    qed
    have sqx: "region d5 (?n4 + ?Q) ?H = seq_bytes other"
    proof -
      have "region d5 (?n4 + ?Q) ?H = region d4 (?n4 + ?Q) ?H"
        by (rule p5(3)) (use nn no in simp_all)
      also have "\<dots> = region (data other) (bam_get_seq other) ?H" by (rule p4(2))
      finally show ?thesis by (simp add: sq)
    qed
    have qlx: "region d5 (?n4 + ?Q + ?H) ?S = qual_bytes other"
      using p5(2) by (simp add: ql)
    have "length d5 = length (data r3)" using p5(1) p4(1) len3 by simp
    then show ?thesis
      using True run nm sqx qlx cap3
      by (simp add: c3 l3 qname_bytes_def seq_bytes_def qual_bytes_def bam_get_qname_def
          bam_get_seq_def bam_get_qual_def)
  next
    case False
    have "\<exists>d4. copy_rc_seq d3 (?n4 + ?Q) (data other) (bam_get_seq other) ?S = Some d4"
      by (rule copy_rc_seq_Some) (use nn no H0 oseq cap3 len3 in simp_all)
    then obtain d4 where d4: "copy_rc_seq d3 (?n4 + ?Q) (data other) (bam_get_seq other) ?S = Some d4" ..
    note p4 = copy_rc_seq_props [OF d4 no(2)]
    have "\<exists>d5. copy_r_qual d4 (?n4 + ?Q + ?H) (data other) (bam_get_qual other) ?S = Some d5"
      by (rule copy_r_qual_Some) (use nn no H0 oseq cap3 len3 p4(1) in simp_all)
    then obtain d5 where d5: "copy_r_qual d4 (?n4 + ?Q + ?H) (data other) (bam_get_qual other) ?S = Some d5" ..
    note p5 = copy_r_qual_props [OF d5]
    have run: "decompress fresh r other = Some (r3\<lparr>data := d5\<rparr>)"
      using False
      by (simp add: decompress_def Let_def r3_def [symmetric] offs rev3 memmove_memcpy sd
          bam_get_qname_def d1 d2 d3 d4 d5)
    have nm: "region d5 0 ?Q = qname_bytes other"
    proof -
      have "region d5 0 ?Q = region d4 0 ?Q" by (rule p5(3)) (use nn H0 in simp_all)
      also have "\<dots> = region d3 0 ?Q" by (rule p4(3)) (use nn in simp_all)
      also have "\<dots> = region (data other) 0 ?Q" by (rule p3(2))
      finally show ?thesis by (simp add: qn)
    qed
    have sqx: "region d5 (?n4 + ?Q) ?H = pack_seq (map rnt (rev (bases (nat ?S) (seq_bytes other))))"
    proof -
      have "region d5 (?n4 + ?Q) ?H = region d4 (?n4 + ?Q) ?H"
        by (rule p5(3)) (use nn no in simp_all)
      also have "\<dots> = pack_seq (map rnt (rev (bases (nat ?S) (region (data other) (bam_get_seq other) ?H))))"
        by (rule p4(2))
      finally show ?thesis by (simp add: sq)
    qed
    have qlx: "region d5 (?n4 + ?Q + ?H) ?S = rev (qual_bytes other)"
      using p5(2) by (simp add: ql)
    have "length d5 = length (data r3)" using p5(1) p4(1) len3 by simp
    then show ?thesis
      using False run nm sqx qlx cap3
      by (simp add: c3 l3 qname_bytes_def seq_bytes_def qual_bytes_def bam_get_qname_def
          bam_get_seq_def bam_get_qual_def)
  qed
qed

lemma compress_steps:
  assumes wf: "wf_record r" and room: "holds_compacted r"
  shows "\<exists>d1 d2 d3.
           memset (data r) 0 0 4 = Some d1 \<and>
           memcpy d1 4 d1 (bam_get_cigar r) (n_cigar (core r) * 4) = Some d2 \<and>
           memcpy d2 (4 + n_cigar (core r) * 4) d2 (bam_get_aux r) (bam_get_l_aux r) = Some d3 \<and>
           compress r = Some (r\<lparr>data := d3,
             l_data := 4 + n_cigar (core r) * 4 + bam_get_l_aux r,
             core := (core r)\<lparr>l_qname := 4, l_extranul := 3, l_qseq := 0\<rparr>\<rparr>)"
proof -
  let ?n4 = "n_cigar (core r) * 4"
  let ?aux = "bam_get_l_aux r"
  from wf have nn: "0 \<le> l_qname (core r)" "0 \<le> ?n4" "0 \<le> l_qseq (core r)" "0 \<le> ?aux"
    and cap: "l_data r \<le> int (length (data r))"
    by (simp_all add: wf_record_def)
  from room have rm: "4 + ?n4 + ?aux \<le> int (length (data r))"
    by (simp add: holds_compacted_def)
  have half: "0 \<le> (l_qseq (core r) + 1) div 2" using nn(3) by simp
  have sum: "l_data r = bam_get_aux r + ?aux"
    by (simp add: bam_get_aux_def bam_get_l_aux_def)
  have cg: "0 \<le> bam_get_cigar r" "bam_get_cigar r + ?n4 \<le> bam_get_aux r"
    using nn half by (simp_all add: bam_get_cigar_def bam_get_aux_def)
  have "\<exists>d1. memset (data r) 0 0 4 = Some d1"
    by (rule memset_Some) (use rm nn in simp_all)
  then obtain d1 where d1: "memset (data r) 0 0 4 = Some d1" ..
  note p1 = memset_props [OF d1]
  have "\<exists>d2. memcpy d1 4 d1 (bam_get_cigar r) ?n4 = Some d2"
    by (rule memcpy_Some) (use cap sum rm nn cg p1(1) in simp_all)
  then obtain d2 where d2: "memcpy d1 4 d1 (bam_get_cigar r) ?n4 = Some d2" ..
  note p2 = memcpy_props [OF d2]
  have "\<exists>d3. memcpy d2 (4 + ?n4) d2 (bam_get_aux r) ?aux = Some d3"
    by (rule memcpy_Some) (use cap sum rm nn cg p1(1) p2(1) in simp_all)
  then obtain d3 where d3: "memcpy d2 (4 + ?n4) d2 (bam_get_aux r) ?aux = Some d3" ..
  have "compress r = Some (r\<lparr>data := d3, l_data := 4 + ?n4 + ?aux,
           core := (core r)\<lparr>l_qname := 4, l_extranul := 3, l_qseq := 0\<rparr>\<rparr>)"
    by (simp add: compress_def Let_def memmove_memcpy d1 d2 d3)
  then show ?thesis using d1 d2 d3 by blast
qed

lemma compress_header:
  assumes wf: "wf_record r" and room: "holds_compacted r"
  shows "\<exists>c. compress r = Some c \<and>
           core c = (core r)\<lparr>l_qname := 4, l_extranul := 3, l_qseq := 0\<rparr> \<and>
           l_data c = 4 + n_cigar (core r) * 4 + bam_get_l_aux r \<and>
           length (data c) = length (data r)"
proof -
  from compress_steps [OF wf room] obtain d1 d2 d3 where
    d1: "memset (data r) 0 0 4 = Some d1" and
    d2: "memcpy d1 4 d1 (bam_get_cigar r) (n_cigar (core r) * 4) = Some d2" and
    d3: "memcpy d2 (4 + n_cigar (core r) * 4) d2 (bam_get_aux r) (bam_get_l_aux r) = Some d3" and
    c: "compress r = Some (r\<lparr>data := d3,
             l_data := 4 + n_cigar (core r) * 4 + bam_get_l_aux r,
             core := (core r)\<lparr>l_qname := 4, l_extranul := 3, l_qseq := 0\<rparr>\<rparr>)"
    by blast
  have "length d3 = length (data r)"
    using memset_props(1) [OF d1] memcpy_props(1) [OF d2] memcpy_props(1) [OF d3] by simp
  then show ?thesis using c by simp
qed

lemma wide_name_holds_compacted:
  assumes "wf_record r" "4 \<le> l_qname (core r)"
  shows "holds_compacted r"
proof -
  from assms(1) have nn: "0 \<le> l_qseq (core r)" and cap: "l_data r \<le> int (length (data r))"
    by (simp_all add: wf_record_def)
  have half: "0 \<le> (l_qseq (core r) + 1) div 2" using nn by simp
  have "4 + n_cigar (core r) * 4 + bam_get_l_aux r \<le> l_data r"
    unfolding bam_get_l_aux_def using nn half assms(2) by linarith
  then show ?thesis using cap by (simp add: holds_compacted_def)
qed



lemma example_donor_wf:
  "wf_record example_donor" "uncompacted example_donor" "4 \<le> l_qname (core example_donor)"
  by (simp_all add: wf_record_def uncompacted_def logical_name_length_def example_donor_def
      bam_get_l_aux_def)




lemma example_compacted_wf:
  "wf_record example_compacted" "compacted example_compacted" "holds_compacted example_compacted"
  by (simp_all add: wf_record_def compacted_def logical_name_length_def example_compacted_def
      bam_get_l_aux_def holds_compacted_def)

text \<open>
  C2. For every uncompacted record \<open>R\<close> that satisfies the layout invariant, in a buffer
  with room for the compacted layout, \<open>compress\<close> returns a compacted record \<open>c\<close>. For
  every copy of \<open>c\<close> (the payload of \<open>c\<close> in any buffer \<open>d'\<close>, with any flag word \<open>f\<close>)
  that has the reverse-strand flag of \<open>R\<close>, \<open>decompress\<close> of the copy with donor \<open>R\<close>
  returns a record whose name bytes, packed sequence bytes and quality bytes are those of
  \<open>R\<close> (and whose header and payload length are those of \<open>R\<close>, the flag word apart).
\<close>

theorem round_trip_same_strand:
  assumes "wf_record R" and "uncompacted R" and "holds_compacted R"
  shows "\<exists>c. compress R = Some c \<and>
           (\<forall>f d'.
              bam_is_rev (c\<lparr>core := (core c)\<lparr>flag := f\<rparr>, data := d'\<rparr>) = bam_is_rev R \<and>
              take (nat (l_data c)) d' = take (nat (l_data c)) (data c) \<longrightarrow>
              (\<exists>x. decompress fresh (c\<lparr>core := (core c)\<lparr>flag := f\<rparr>, data := d'\<rparr>) R = Some x \<and>
                   core x = (core R)\<lparr>flag := f\<rparr> \<and> l_data x = l_data R \<and>
                   qname_bytes x = qname_bytes R \<and> seq_bytes x = seq_bytes R \<and>
                   qual_bytes x = qual_bytes R))"
proof -
  from compress_header [OF assms(1,3)] obtain c where c: "compress R = Some c"
    and hc: "core c = (core R)\<lparr>l_qname := 4, l_extranul := 3, l_qseq := 0\<rparr>"
    and lc: "l_data c = 4 + n_cigar (core R) * 4 + bam_get_l_aux R"
    and len: "length (data c) = length (data R)"
    by blast
  from assms(1) have nn: "0 \<le> n_cigar (core R)" "0 \<le> bam_get_l_aux R"
    by (simp_all add: wf_record_def)
  from assms(3) have rm: "4 + n_cigar (core R) * 4 + bam_get_l_aux R \<le> int (length (data R))"
    by (simp add: holds_compacted_def)
  have sum: "l_data R = l_qname (core R) + n_cigar (core R) * 4 + (l_qseq (core R) + 1) div 2
      + l_qseq (core R) + bam_get_l_aux R"
    by (simp add: bam_get_l_aux_def)
  have "\<exists>x. decompress fresh (c\<lparr>core := (core c)\<lparr>flag := f\<rparr>, data := d'\<rparr>) R = Some x \<and>
           core x = (core R)\<lparr>flag := f\<rparr> \<and> l_data x = l_data R \<and>
           qname_bytes x = qname_bytes R \<and> seq_bytes x = seq_bytes R \<and>
           qual_bytes x = qual_bytes R"
    if rv: "bam_is_rev (c\<lparr>core := (core c)\<lparr>flag := f\<rparr>, data := d'\<rparr>) = bam_is_rev R"
      and cp: "take (nat (l_data c)) d' = take (nat (l_data c)) (data c)"
    for f d'
  proof -
    define c' where "c' = c\<lparr>core := (core c)\<lparr>flag := f\<rparr>, data := d'\<rparr>"
    have "length (take (nat (l_data c)) (data c)) = nat (l_data c)"
      using rm nn by (simp add: lc len)
    with cp have "length (take (nat (l_data c)) d') = nat (l_data c)" by simp
    then have cap: "l_data c \<le> int (length d')" by simp
    have hc': "core c' = (core R)\<lparr>l_qname := 4, l_extranul := 3, l_qseq := 0, flag := f\<rparr>"
      and lc': "l_data c' = 4 + n_cigar (core R) * 4 + bam_get_l_aux R"
      and len': "data c' = d'"
      by (simp_all add: c'_def hc lc)
    have aux: "bam_get_l_aux c' = bam_get_l_aux R"
      by (simp add: bam_get_l_aux_def [of c'] hc' lc')
    have wfc: "wf_record c'"
      using nn cap by (simp add: wf_record_def aux hc' lc' len' lc)
    have rmc: "holds_compacted c'"
      using cap by (simp add: holds_compacted_def aux hc' len' lc)
    from decompress_spec [OF wfc rmc assms(1), of fresh]
    obtain x where x: "decompress fresh c' R = Some x"
      and hx: "core x = (core c')\<lparr>l_qname := l_qname (core R), l_extranul := l_extranul (core R),
                                    l_qseq := l_qseq (core R)\<rparr>"
      and lx: "l_data x = l_qname (core R) + n_cigar (core c') * 4
                  + (l_qseq (core R) + 1) div 2 + l_qseq (core R) + bam_get_l_aux c'"
      and nm: "qname_bytes x = qname_bytes R"
      and same: "bam_is_rev c' = bam_is_rev R \<longrightarrow> seq_bytes x = seq_bytes R \<and> qual_bytes x = qual_bytes R"
      by blast
    have "core x = (core R)\<lparr>flag := f\<rparr>" using hx by (simp add: hc')
    moreover have "l_data x = l_data R" using lx sum by (simp add: aux hc')
    ultimately show ?thesis using x nm same rv unfolding c'_def by auto
  qed
  with c show ?thesis by blast
qed

theorem round_trip_same_strand_witness:
  "wf_record example_donor \<and> uncompacted example_donor \<and> holds_compacted example_donor \<and>
   (\<exists>c. compress example_donor = Some c \<and>
      (\<exists>x. decompress (\<lambda>_. 0)
              (c\<lparr>core := (core c)\<lparr>flag := 0x63\<rparr>, data := take (nat (l_data c)) (data c)\<rparr>)
              example_donor = Some x \<and>
           qname_bytes x = [114, 49, 0, 0] \<and> seq_bytes x = [0x12, 0x48] \<and>
           qual_bytes x = [10, 20, 30, 40]))"
proof -
  have rm: "holds_compacted example_donor"
    by (rule wide_name_holds_compacted) (rule example_donor_wf)+
  have vals: "qname_bytes example_donor = [114, 49, 0, 0]" "seq_bytes example_donor = [0x12, 0x48]"
    "qual_bytes example_donor = [10, 20, 30, 40]"
    by (simp_all add: qname_bytes_def seq_bytes_def qual_bytes_def region_def example_donor_def
        bam_get_qname_def bam_get_seq_def bam_get_qual_def)
  have rv: "\<And>c d'. bam_is_rev (c\<lparr>core := (core c)\<lparr>flag := 0x63\<rparr>, data := d'\<rparr>) = bam_is_rev example_donor"
    by (simp add: bam_is_rev_def example_donor_def)
  from round_trip_same_strand [OF example_donor_wf(1,2) rm, of "\<lambda>_. 0"]
  obtain c where c: "compress example_donor = Some c"
    and all: "\<forall>f d'.
        bam_is_rev (c\<lparr>core := (core c)\<lparr>flag := f\<rparr>, data := d'\<rparr>) = bam_is_rev example_donor \<and>
        take (nat (l_data c)) d' = take (nat (l_data c)) (data c) \<longrightarrow>
        (\<exists>x. decompress (\<lambda>_. 0) (c\<lparr>core := (core c)\<lparr>flag := f\<rparr>, data := d'\<rparr>) example_donor = Some x \<and>
             core x = (core example_donor)\<lparr>flag := f\<rparr> \<and> l_data x = l_data example_donor \<and>
             qname_bytes x = qname_bytes example_donor \<and> seq_bytes x = seq_bytes example_donor \<and>
             qual_bytes x = qual_bytes example_donor)"
    by blast
  from all [rule_format, where f = "0x63" and d' = "take (nat (l_data c)) (data c)"] rv
  have "\<exists>x. decompress (\<lambda>_. 0)
              (c\<lparr>core := (core c)\<lparr>flag := 0x63\<rparr>, data := take (nat (l_data c)) (data c)\<rparr>)
              example_donor = Some x \<and>
           qname_bytes x = [114, 49, 0, 0] \<and> seq_bytes x = [0x12, 0x48] \<and>
           qual_bytes x = [10, 20, 30, 40]"
    by (auto simp: vals)
  with c example_donor_wf rm show ?thesis by blast
qed

text \<open>
  C3. For every compacted record and uncompacted donor that satisfy the layout invariant,
  the record's buffer holding the compacted layout, \<open>decompress\<close> returns a record. If the
  reverse-strand flags differ, its packed sequence is the donor's bases in reverse order,
  each replaced through the complement table, and its qualities are the donor's in reverse
  order; if the flags are equal, both are the donor's bytes.
\<close>

theorem decompress_strand:
  assumes "wf_record r" and "compacted r" and "holds_compacted r"
    and "wf_record other" and "uncompacted other"
  shows "\<exists>x. decompress fresh r other = Some x \<and>
           (bam_is_rev r \<noteq> bam_is_rev other \<longrightarrow>
              seq_bytes x = pack_seq (map rnt (rev (bases (nat (l_qseq (core other))) (seq_bytes other)))) \<and>
              bases (nat (l_qseq (core other))) (seq_bytes x) =
                map rnt (rev (bases (nat (l_qseq (core other))) (seq_bytes other))) \<and>
              qual_bytes x = rev (qual_bytes other)) \<and>
           (bam_is_rev r = bam_is_rev other \<longrightarrow>
              seq_bytes x = seq_bytes other \<and> qual_bytes x = qual_bytes other)"
proof -
  from decompress_spec [OF assms(1,3,4), of fresh] obtain x
    where x: "decompress fresh r other = Some x"
      and same: "bam_is_rev r = bam_is_rev other \<longrightarrow>
                   seq_bytes x = seq_bytes other \<and> qual_bytes x = qual_bytes other"
      and diff: "bam_is_rev r \<noteq> bam_is_rev other \<longrightarrow>
                   seq_bytes x = pack_seq (map rnt (rev (bases (nat (l_qseq (core other)))
                     (seq_bytes other)))) \<and>
                   qual_bytes x = rev (qual_bytes other)"
    by blast
  from diff have "bam_is_rev r \<noteq> bam_is_rev other \<longrightarrow>
      bases (nat (l_qseq (core other))) (seq_bytes x) =
        map rnt (rev (bases (nat (l_qseq (core other))) (seq_bytes other)))"
    by (simp add: bases_reverse_complement)
  with x same diff show ?thesis by blast
qed

theorem decompress_strand_witness:
  "wf_record example_compacted \<and> compacted example_compacted \<and> holds_compacted example_compacted \<and>
   wf_record example_donor \<and> uncompacted example_donor \<and>
   bam_is_rev example_compacted \<noteq> bam_is_rev example_donor \<and>
   bases 4 (seq_bytes example_donor) = [1, 2, 4, 8] \<and>
   (\<exists>x. decompress (\<lambda>_. 0) example_compacted example_donor = Some x \<and>
        seq_bytes x = [0x12, 0x48] \<and> bases 4 (seq_bytes x) = [1, 2, 4, 8] \<and>
        qual_bytes x = [40, 30, 20, 10])"
proof -
  have rv: "bam_is_rev example_compacted \<noteq> bam_is_rev example_donor"
    by (simp add: bam_is_rev_def example_compacted_def example_donor_def)
  have sq: "seq_bytes example_donor = [0x12, 0x48]"
    and ql: "qual_bytes example_donor = [10, 20, 30, 40]"
    and n: "nat (l_qseq (core example_donor)) = 4"
    by (simp_all add: seq_bytes_def qual_bytes_def region_def example_donor_def
        bam_get_seq_def bam_get_qual_def)
  have bs: "bases 4 [0x12, 0x48] = [1, 2, 4, 8]"
    by code_simp
  have rn: "rnt 8 = 1" "rnt 4 = 2" "rnt 2 = 4" "rnt 1 = 8"
    by (simp_all add: rnt_def rnt_table_def)
  from decompress_strand [OF example_compacted_wf example_donor_wf(1,2), of "\<lambda>_. 0"]
  show ?thesis using example_compacted_wf example_donor_wf(1,2) rv
    by (auto simp: sq ql n bs rn)
qed

text \<open>
  C9. On a record that satisfies the layout invariant, in a buffer with room for the
  compacted layout, \<open>compress\<close> and \<open>decompress\<close> (with a donor that satisfies the
  invariant) return a record whose payload length is name length + 4 * CIGAR operations +
  \<open>(l_qseq + 1) div 2\<close> + sequence length + the auxiliary length of the record before the
  call, and which satisfies the layout invariant again.
\<close>

theorem codec_keeps_layout:
  assumes "wf_record r" and "holds_compacted r"
  shows "(\<exists>c. compress r = Some c \<and>
            l_data c = l_qname (core c) + 4 * n_cigar (core c) + (l_qseq (core c) + 1) div 2
                       + l_qseq (core c) + bam_get_l_aux r \<and>
            wf_record c) \<and>
         (wf_record other \<longrightarrow>
           (\<exists>x. decompress fresh r other = Some x \<and>
              l_data x = l_qname (core x) + 4 * n_cigar (core x) + (l_qseq (core x) + 1) div 2
                         + l_qseq (core x) + bam_get_l_aux r \<and>
              wf_record x))"
proof
  from compress_header [OF assms] obtain c where c: "compress r = Some c"
    and hc: "core c = (core r)\<lparr>l_qname := 4, l_extranul := 3, l_qseq := 0\<rparr>"
    and lc: "l_data c = 4 + n_cigar (core r) * 4 + bam_get_l_aux r"
    and len: "length (data c) = length (data r)"
    by blast
  from assms(1) have nn: "0 \<le> n_cigar (core r)" "0 \<le> bam_get_l_aux r"
    by (simp_all add: wf_record_def)
  have aux: "bam_get_l_aux c = bam_get_l_aux r"
    by (simp add: bam_get_l_aux_def hc lc)
  have "wf_record c"
    using nn assms(2) by (simp add: wf_record_def aux hc lc len holds_compacted_def)
  then show "\<exists>c. compress r = Some c \<and>
            l_data c = l_qname (core c) + 4 * n_cigar (core c) + (l_qseq (core c) + 1) div 2
                       + l_qseq (core c) + bam_get_l_aux r \<and> wf_record c"
    using c by (simp add: hc lc)
next
  show "wf_record other \<longrightarrow>
           (\<exists>x. decompress fresh r other = Some x \<and>
              l_data x = l_qname (core x) + 4 * n_cigar (core x) + (l_qseq (core x) + 1) div 2
                         + l_qseq (core x) + bam_get_l_aux r \<and>
              wf_record x)"
  proof
    assume wfo: "wf_record other"
    from decompress_spec [OF assms wfo, of fresh]
    obtain x where x: "decompress fresh r other = Some x"
      and hx: "core x = (core r)\<lparr>l_qname := l_qname (core other),
                   l_extranul := l_extranul (core other), l_qseq := l_qseq (core other)\<rparr>"
      and lx: "l_data x = l_qname (core other) + n_cigar (core r) * 4
                  + (l_qseq (core other) + 1) div 2 + l_qseq (core other) + bam_get_l_aux r"
      and cap: "l_data x \<le> int (length (data x))"
      by blast
    from assms(1) wfo have nn: "0 \<le> n_cigar (core r)" "0 \<le> bam_get_l_aux r"
      "0 \<le> l_qname (core other)" "0 \<le> l_qseq (core other)"
      by (simp_all add: wf_record_def)
    have aux: "bam_get_l_aux x = bam_get_l_aux r"
      by (simp add: bam_get_l_aux_def hx lx)
    have "wf_record x" using nn cap by (simp add: wf_record_def aux hx)
    then show "\<exists>x. decompress fresh r other = Some x \<and>
              l_data x = l_qname (core x) + 4 * n_cigar (core x) + (l_qseq (core x) + 1) div 2
                         + l_qseq (core x) + bam_get_l_aux r \<and>
              wf_record x"
      using x by (simp add: hx lx)
  qed
qed

theorem codec_keeps_layout_witness:
  "wf_record example_compacted \<and> holds_compacted example_compacted \<and> wf_record example_donor \<and>
   (\<exists>c. compress example_compacted = Some c \<and> wf_record c) \<and>
   (\<exists>x. decompress (\<lambda>_. 0) example_compacted example_donor = Some x \<and> wf_record x)"
  using codec_keeps_layout [OF example_compacted_wf(1,3), of example_donor "\<lambda>_. 0"]
    example_compacted_wf example_donor_wf
  by blast

subsection \<open>Reading a unit\<close>

lemma and_exp_word: "(f :: 16 word) AND 2 ^ n = (if bit f n then 2 ^ n else 0)"
  by (rule bit_eqI) (auto simp: bit_simps)

lemma and_single_bit_cases:
  fixes f :: "16 word"
  shows "f AND 0x40 = 0 \<or> f AND 0x40 = 0x40" "f AND 0x80 = 0 \<or> f AND 0x80 = 0x80"
  using and_exp_word [of f 6] and_exp_word [of f 7] by (simp_all split: if_splits)

lemma mask_C0_split:
  fixes f :: "16 word"
  shows "f AND 0xC0 = (f AND 0x40) OR (f AND 0x80)"
proof -
  have "(0xC0 :: 16 word) = 0x40 OR 0x80" by simp
  then show ?thesis by (simp only: bit.conj_disj_distrib)
qed

lemma mask_C0_first: "(f :: 16 word) AND 0xC0 = 0x40 \<longleftrightarrow> f AND 0x40 \<noteq> 0 \<and> f AND 0x80 = 0"
  using and_single_bit_cases [of f] by (auto simp: mask_C0_split [of f])

lemma mask_C0_second: "(f :: 16 word) AND 0xC0 = 0x80 \<longleftrightarrow> f AND 0x80 \<noteq> 0 \<and> f AND 0x40 = 0"
  using and_single_bit_cases [of f] by (auto simp: mask_C0_split [of f])


lemma mates_complementary_mask:
  "mates_complementary r1 r2 \<longleftrightarrow>
     (flag (core r1) AND 0x00C0 = 0x0040 \<and> flag (core r2) AND 0x00C0 = 0x0080) \<or>
     (flag (core r1) AND 0x00C0 = 0x0080 \<and> flag (core r2) AND 0x00C0 = 0x0040)"
  by (auto simp: mates_complementary_def bam_is_read1_def bam_is_read2_def mask_C0_first mask_C0_second)

lemma ensure_init_cells:
  "ensure_init p hp = (q, hp') \<Longrightarrow> a \<noteq> q \<Longrightarrow> cells hp' a = cells hp a"
  by (auto simp: ensure_init_def bam_init1_def split: option.splits)

lemma read_mate_fatal:
  assumes "inp = [] \<or> (\<exists>r2 rest. inp = r2 # rest \<and> \<not> mates_complementary (cells hp p1) r2)"
  shows "\<exists>msg. read_mate p1 this inp hp = Inl (Fatal msg)"
proof -
  obtain p2 hp1 where e: "ensure_init (b2 this) hp = (p2, hp1)" by (cases "ensure_init (b2 this) hp")
  show ?thesis
  proof (cases inp)
    case Nil
    then show ?thesis by (simp add: read_mate_def e)
  next
    case (Cons r2 rest)
    with assms have nc: "\<not> mates_complementary (cells hp p1) r2" by simp
    show ?thesis
    proof (cases "p1 = p2")
      case True
      then show ?thesis by (simp add: read_mate_def e Cons Let_def)
    next
      case False
      then have "cells hp1 p1 = cells hp p1" using e by (rule ensure_init_cells [rotated])
      then show ?thesis
        using nc False by (simp add: read_mate_def e Cons Let_def mates_complementary_mask)
    qed
  qed
qed

text \<open>
  C7. When the first record read is flagged paired, \<open>read\<close> ends in a fatal defect, and
  returns no unit, if no second record can be read or if the mate flags of the two
  records are not complementary (both first, both second, or neither).
\<close>

theorem read_pairing_violation_fatal:
  assumes "bam_is_paired r1"
    and "rest = [] \<or> (\<exists>r2 rest'. rest = r2 # rest' \<and> \<not> mates_complementary r1 r2)"
  shows "\<exists>msg. read cigar2qlen getSeqLength this (r1 # rest) hp = Inl (Fatal msg)"
proof -
  obtain p1 hp1 where e: "ensure_init (b this) hp = (p1, hp1)" by (cases "ensure_init (b this) hp")
  let ?hp2 = "hp1\<lparr>cells := (cells hp1)(p1 := r1)\<rparr>"
  let ?this2 = "this\<lparr>is_aligned := - 1, b := Some p1, is_paired := True\<rparr>"
  have "rest = [] \<or> (\<exists>r2 rest'. rest = r2 # rest' \<and> \<not> mates_complementary (cells ?hp2 p1) r2)"
    using assms(2) by simp
  from read_mate_fatal [OF this, of ?this2]
  obtain msg where "read_mate p1 ?this2 rest ?hp2 = Inl (Fatal msg)" ..
  then show ?thesis using assms(1) by (simp add: read_def e Let_def)
qed

lemma read_status_Inr:
  assumes "read_status cigar2qlen getSeqLength this3 hp = Inr this4"
  shows "\<exists>p1. b this4 = Some p1 \<and>
           (\<not> is_paired this4 \<longrightarrow>
              is_aligned this4 = (if bam_is_mapped (cells hp p1) then 1 else 0)) \<and>
           (is_paired this4 \<longrightarrow>
              (\<exists>p2. b2 this4 = Some p2 \<and>
                 is_aligned this4 =
                   (if bam_is_mapped (cells hp p1) then 1 else 0) OR
                   (if bam_is_mapped (cells hp p2) then 2 else 0) \<and>
                 is_aligned this4 =
                   (if bam_is_mapped (cells hp p1)
                    then (if bam_is_mapped (cells hp p2) then 3 else 1)
                    else (if bam_is_mapped (cells hp p2) then 2 else 0))))"
proof (cases "b this3")
  case None
  with assms show ?thesis by (simp add: read_status_def)
next
  case (Some p1)
  show ?thesis
  proof (cases "is_paired this3")
    case False
    with assms Some have "this4 = this3\<lparr>is_aligned := (if bam_is_mapped (cells hp p1) then 1 else 0)\<rparr>"
      by (simp add: read_status_def Let_def split: if_splits)
    then show ?thesis using Some False by simp
  next
    case True
    show ?thesis
    proof (cases "b2 this3")
      case None
      with assms Some True show ?thesis by (simp add: read_status_def Let_def)
    next
      case p2: (Some p2)
      from assms Some True p2
      have "this4 = this3\<lparr>is_aligned := (if bam_is_mapped (cells hp p1) then 1 else 0) OR
                push_bit 1 (if bam_is_mapped (cells hp p2) then 1 else 0)\<rparr>"
        by (simp add: read_status_def Let_def split: if_splits)
      then show ?thesis using Some True p2 by simp
    qed
  qed
qed

lemma read_status_fields:
  assumes "read_status cigar2qlen getSeqLength T hp = Inr T'"
  shows "b T' = b T" and "b2 T' = b2 T" and "is_paired T' = is_paired T"
proof -
  have "b T' = b T \<and> b2 T' = b2 T \<and> is_paired T' = is_paired T"
  proof (cases "b T")
    case None
    with assms show ?thesis by (simp add: read_status_def)
  next
    case (Some p1)
    show ?thesis
    proof (cases "is_paired T")
      case False
      with assms Some show ?thesis
        by (auto simp: read_status_def Let_def split: if_splits)
    next
      case True
      show ?thesis
      proof (cases "b2 T")
        case None
        with assms Some True show ?thesis by (simp add: read_status_def Let_def)
      next
        case p2: (Some p2)
        with assms Some True show ?thesis
          by (auto simp: read_status_def Let_def split: if_splits)
      qed
    qed
  qed
  then show "b T' = b T" and "b2 T' = b2 T" and "is_paired T' = is_paired T" by simp_all
qed

lemma read_mate_Inr:
  assumes run: "read_mate p1 T inp hp = Inr (T', inp', hp')" and r1: "cells hp p1 = r1"
  shows "\<exists>r2 p2. inp = r2 # inp' \<and> p2 \<noteq> p1 \<and> bam_is_paired r2 \<and> mates_complementary r1 r2 \<and>
           cells hp' p1 = r1 \<and> cells hp' p2 = r2 \<and>
           b T' = (if bam_is_read2 r1 then Some p2 else b T) \<and>
           b2 T' = (if bam_is_read2 r1 then Some p1 else Some p2) \<and>
           is_paired T' = is_paired T"
proof -
  obtain p2 hp1 where e: "ensure_init (b2 T) hp = (p2, hp1)" by (cases "ensure_init (b2 T) hp")
  show ?thesis
  proof (cases inp)
    case Nil
    with run show ?thesis by (simp add: read_mate_def e)
  next
    case (Cons r2 rest)
    show ?thesis
    proof (cases "p1 = p2")
      case True
      with run show ?thesis by (simp add: read_mate_def e Cons Let_def split: if_splits)
    next
      case False
      then have c1: "cells hp1 p1 = r1" using ensure_init_cells [OF e False] r1 by simp
      let ?hp2 = "hp1\<lparr>cells := (cells hp1)(p2 := r2)\<rparr>"
      have h: "cells ?hp2 p1 = r1" "cells ?hp2 p2 = r2" using c1 False by simp_all
      from run False c1 have pd: "bam_is_paired r2" and mc: "mates_complementary r1 r2"
        and res: "(T', inp', hp') =
          (if bam_is_read2 r1 then (T\<lparr>b2 := Some p2, b := Some p2, b2 := Some p1\<rparr>, rest, ?hp2)
           else (T\<lparr>b2 := Some p2\<rparr>, rest, ?hp2))"
        by (auto simp: read_mate_def e Cons Let_def mates_complementary_mask split: if_splits)
      from res have "inp' = rest" "hp' = ?hp2" by (simp_all split: if_splits)
      moreover from res have "b T' = (if bam_is_read2 r1 then Some p2 else b T)"
        "b2 T' = (if bam_is_read2 r1 then Some p1 else Some p2)" "is_paired T' = is_paired T"
        by (auto split: if_splits)
      ultimately show ?thesis using Cons False pd mc h by auto
    qed
  qed
qed

lemma read_True_cases:
  assumes "read cigar2qlen getSeqLength this inp hp = Inr (True, this', inp', hp')"
  shows "\<exists>r1 rest1 p1 T hpA.
           inp = r1 # rest1 \<and> b T = Some p1 \<and> is_paired T = bam_is_paired r1 \<and>
           cells hpA p1 = r1 \<and>
           (\<not> bam_is_paired r1 \<longrightarrow>
              inp' = rest1 \<and> hp' = hpA \<and>
              read_status cigar2qlen getSeqLength T hpA = Inr this') \<and>
           (bam_is_paired r1 \<longrightarrow>
              (\<exists>T3. read_mate p1 T rest1 hpA = Inr (T3, inp', hp') \<and>
                    read_status cigar2qlen getSeqLength T3 hp' = Inr this'))"
proof -
  obtain p1 hp1 where e: "ensure_init (b this) hp = (p1, hp1)" by (cases "ensure_init (b this) hp")
  show ?thesis
  proof (cases inp)
    case Nil
    with assms show ?thesis by (simp add: read_def e)
  next
    case (Cons r rest)
    let ?hp2 = "hp1\<lparr>cells := (cells hp1)(p1 := r)\<rparr>"
    show ?thesis
    proof (cases "bam_is_paired r")
      case True
      let ?T = "this\<lparr>is_aligned := - 1, b := Some p1, is_paired := True\<rparr>"
      from assms have run: "(case read_mate p1 ?T rest ?hp2 of Inl e \<Rightarrow> Inl e
          | Inr (this3, inp3, hp3) \<Rightarrow>
              (case read_status cigar2qlen getSeqLength this3 hp3 of Inl e \<Rightarrow> Inl e
               | Inr this4 \<Rightarrow> Inr (True, this4, inp3, hp3))) = Inr (True, this', inp', hp')"
        by (simp add: read_def e Cons Let_def True)
      then obtain this3 inp3 hp3 where mid: "read_mate p1 ?T rest ?hp2 = Inr (this3, inp3, hp3)"
        by (cases "read_mate p1 ?T rest ?hp2") auto
      with run have "read_status cigar2qlen getSeqLength this3 hp3 = Inr this'"
        "inp3 = inp'" "hp3 = hp'"
        by (cases "read_status cigar2qlen getSeqLength this3 hp3"; simp)+
      with mid have "\<exists>T3. read_mate p1 ?T rest ?hp2 = Inr (T3, inp', hp') \<and>
          read_status cigar2qlen getSeqLength T3 hp' = Inr this'"
        by auto
      moreover have "b ?T = Some p1" "is_paired ?T = bam_is_paired r" "cells ?hp2 p1 = r"
        using True by simp_all
      ultimately show ?thesis using Cons True by blast
    next
      case False
      let ?T = "this\<lparr>is_aligned := - 1, b := Some p1, is_paired := False\<rparr>"
      from assms have run: "(case read_status cigar2qlen getSeqLength ?T ?hp2 of Inl e \<Rightarrow> Inl e
               | Inr this4 \<Rightarrow> Inr (True, this4, rest, ?hp2)) = Inr (True, this', inp', hp')"
        by (simp add: read_def e Cons Let_def False)
      then have "read_status cigar2qlen getSeqLength ?T ?hp2 = Inr this'" "inp' = rest" "hp' = ?hp2"
        by (cases "read_status cigar2qlen getSeqLength ?T ?hp2"; simp)+
      moreover have "b ?T = Some p1" "is_paired ?T = bam_is_paired r" "cells ?hp2 p1 = r"
        using False by simp_all
      ultimately show ?thesis using Cons False by blast
    qed
  qed
qed

text \<open>
  C8. Every successful \<open>read\<close> has taken the first record \<open>r1\<close> of the source, and the
  unit is paired exactly when \<open>r1\<close> is flagged paired. For an unpaired unit, \<open>b\<close> holds
  \<open>r1\<close> and the alignment status is 1 if \<open>r1\<close> is mapped and 0 otherwise. For a paired
  unit the next record \<open>r2\<close> has been taken too; \<open>b\<close> holds the one of the two records that
  is flagged first in pair (mate 1: \<open>r2\<close> when \<open>r1\<close> is flagged second in pair, else \<open>r1\<close>)
  and \<open>b2\<close> the other (mate 2); and the status is 1 if mate 1 is mapped (else 0), or-ed
  with 2 if mate 2 is mapped: 3 when both mates are mapped, 2 when only mate 2 is, 1 when
  only mate 1 is, 0 when neither is.
\<close>

theorem read_alignment_status:
  assumes "read cigar2qlen getSeqLength this inp hp = Inr (True, this', inp', hp')"
  shows "\<exists>r1 rest1 q1.
           inp = r1 # rest1 \<and> is_paired this' = bam_is_paired r1 \<and> b this' = Some q1 \<and>
           (\<not> bam_is_paired r1 \<longrightarrow>
              inp' = rest1 \<and> cells hp' q1 = r1 \<and>
              is_aligned this' = (if bam_is_mapped r1 then 1 else 0)) \<and>
           (bam_is_paired r1 \<longrightarrow>
              (\<exists>r2 q2.
                 rest1 = r2 # inp' \<and> b2 this' = Some q2 \<and> q2 \<noteq> q1 \<and>
                 cells hp' q1 = (if bam_is_read2 r1 then r2 else r1) \<and>
                 cells hp' q2 = (if bam_is_read2 r1 then r1 else r2) \<and>
                 bam_is_read1 (cells hp' q1) \<and> \<not> bam_is_read2 (cells hp' q1) \<and>
                 bam_is_read2 (cells hp' q2) \<and> \<not> bam_is_read1 (cells hp' q2) \<and>
                 is_aligned this' =
                   (if bam_is_mapped (cells hp' q1) then 1 else 0) OR
                   (if bam_is_mapped (cells hp' q2) then 2 else 0) \<and>
                 is_aligned this' =
                   (if bam_is_mapped (cells hp' q1)
                    then (if bam_is_mapped (cells hp' q2) then 3 else 1)
                    else (if bam_is_mapped (cells hp' q2) then 2 else 0))))"
proof -
  from read_True_cases [OF assms] obtain r1 rest1 p1 T hpA where
    inp: "inp = r1 # rest1" and bT: "b T = Some p1" and pT: "is_paired T = bam_is_paired r1"
    and cA: "cells hpA p1 = r1"
    and un: "\<not> bam_is_paired r1 \<longrightarrow> inp' = rest1 \<and> hp' = hpA \<and>
              read_status cigar2qlen getSeqLength T hpA = Inr this'"
    and pa: "bam_is_paired r1 \<longrightarrow>
              (\<exists>T3. read_mate p1 T rest1 hpA = Inr (T3, inp', hp') \<and>
                    read_status cigar2qlen getSeqLength T3 hp' = Inr this')"
    by blast
  show ?thesis
  proof (cases "bam_is_paired r1")
    case False
    with un have st: "read_status cigar2qlen getSeqLength T hpA = Inr this'"
      and eq: "inp' = rest1" "hp' = hpA" by simp_all
    note f = read_status_fields [OF st]
    from read_status_Inr [OF st] f bT pT False cA
    have "is_aligned this' = (if bam_is_mapped r1 then 1 else 0)" by auto
    then show ?thesis using inp f bT pT False cA eq by simp
  next
    case True
    with pa obtain T3 where mate: "read_mate p1 T rest1 hpA = Inr (T3, inp', hp')"
      and st: "read_status cigar2qlen getSeqLength T3 hp' = Inr this'" by blast
    from read_mate_Inr [OF mate cA] obtain r2 p2 where
      rest: "rest1 = r2 # inp'" and ne: "p2 \<noteq> p1" and mc: "mates_complementary r1 r2"
      and c1: "cells hp' p1 = r1" and c2: "cells hp' p2 = r2"
      and b3: "b T3 = (if bam_is_read2 r1 then Some p2 else b T)"
      and b23: "b2 T3 = (if bam_is_read2 r1 then Some p1 else Some p2)"
      and p3: "is_paired T3 = is_paired T"
      by blast
    note f = read_status_fields [OF st]
    define q1 where "q1 = (if bam_is_read2 r1 then p2 else p1)"
    define q2 where "q2 = (if bam_is_read2 r1 then p1 else p2)"
    have bq: "b this' = Some q1" "b2 this' = Some q2" "q2 \<noteq> q1" "is_paired this'"
      using f b3 b23 p3 bT pT True ne by (auto simp: q1_def q2_def)
    have cq: "cells hp' q1 = (if bam_is_read2 r1 then r2 else r1)"
      "cells hp' q2 = (if bam_is_read2 r1 then r1 else r2)"
      using c1 c2 by (simp_all add: q1_def q2_def)
    have fl: "bam_is_read1 (cells hp' q1)" "\<not> bam_is_read2 (cells hp' q1)"
      "bam_is_read2 (cells hp' q2)" "\<not> bam_is_read1 (cells hp' q2)"
      using mc by (auto simp: cq mates_complementary_def)
    from read_status_Inr [OF st] bq
    have al: "is_aligned this' =
                   (if bam_is_mapped (cells hp' q1) then 1 else 0) OR
                   (if bam_is_mapped (cells hp' q2) then 2 else 0)"
      "is_aligned this' =
                   (if bam_is_mapped (cells hp' q1)
                    then (if bam_is_mapped (cells hp' q2) then 3 else 1)
                    else (if bam_is_mapped (cells hp' q2) then 2 else 0))"
      by auto
    show ?thesis
      using inp pT True f(3) p3 rest bq cq fl al by (intro exI [of _ r1] exI [of _ rest1] exI [of _ q1]) auto
  qed
qed

lemma read_mate_swap:
  assumes e2: "ensure_init (b2 T) hpA = (p2, hp2)"
    and ne: "p1 \<noteq> p2"
    and r1: "cells hpA p1 = r1"
    and pd: "bam_is_paired r2"
    and fl: "bam_is_read2 r1" "\<not> bam_is_read1 r1" "bam_is_read1 r2" "\<not> bam_is_read2 r2"
  shows "read_mate p1 T (r2 # rest) hpA =
           Inr (T\<lparr>b := Some p2, b2 := Some p1\<rparr>, rest, hp2\<lparr>cells := (cells hp2)(p2 := r2)\<rparr>)"
proof -
  have c1: "cells hp2 p1 = r1"
    using ensure_init_cells [OF e2 ne] r1 by simp
  have m1: "flag (core r1) AND 0x00C0 = 0x0080" "flag (core r2) AND 0x00C0 = 0x0040"
    using fl by (simp_all add: mask_C0_first mask_C0_second bam_is_read1_def bam_is_read2_def)
  show ?thesis
    using pd fl(1) ne c1 m1 by (simp add: read_mate_def e2 Let_def)
qed

lemma read_status_paired:
  assumes "b T = Some q1" and "b2 T = Some q2" and "is_paired T"
    and "bam_is_mapped (cells hp q1) \<longrightarrow>
           (if l_qseq (core (cells hp q1)) \<le> 0 then getSeqLength 1 else l_qseq (core (cells hp q1)))
             = cigar2qlen (cells hp q1)"
    and "bam_is_mapped (cells hp q2) \<longrightarrow>
           (if l_qseq (core (cells hp q2)) \<le> 0 then getSeqLength 2 else l_qseq (core (cells hp q2)))
             = cigar2qlen (cells hp q2)"
  shows "read_status cigar2qlen getSeqLength T hp =
           Inr (T\<lparr>is_aligned := (if bam_is_mapped (cells hp q1) then 1 else 0) OR
                                   (if bam_is_mapped (cells hp q2) then 2 else 0)\<rparr>)"
  using assms
  by (cases "bam_is_mapped (cells hp q1)"; cases "bam_is_mapped (cells hp q2)")
    (simp_all add: read_status_def Let_def)

lemma read_pair_swapped:
  assumes e1: "ensure_init (b this) hp = (p1, hp1)"
    and e2: "ensure_init (b2 this) (hp1\<lparr>cells := (cells hp1)(p1 := r1)\<rparr>) = (p2, hp2)"
    and ne: "p1 \<noteq> p2"
    and pd: "bam_is_paired r1" "bam_is_paired r2"
    and fl: "bam_is_read2 r1" "\<not> bam_is_read1 r1" "bam_is_read1 r2" "\<not> bam_is_read2 r2"
    and len1: "bam_is_mapped r2 \<longrightarrow>
                 (if l_qseq (core r2) \<le> 0 then getSeqLength 1 else l_qseq (core r2)) = cigar2qlen r2"
    and len2: "bam_is_mapped r1 \<longrightarrow>
                 (if l_qseq (core r1) \<le> 0 then getSeqLength 2 else l_qseq (core r1)) = cigar2qlen r1"
  shows "read cigar2qlen getSeqLength this (r1 # r2 # rest) hp =
           Inr (True,
                this\<lparr>is_aligned := (if bam_is_mapped r2 then 1 else 0) OR
                                      (if bam_is_mapped r1 then 2 else 0),
                      is_paired := True, b := Some p2, b2 := Some p1\<rparr>,
                rest, hp2\<lparr>cells := (cells hp2)(p2 := r2)\<rparr>)"
    and "cells (hp2\<lparr>cells := (cells hp2)(p2 := r2)\<rparr>) p1 = r1"
    and "cells (hp2\<lparr>cells := (cells hp2)(p2 := r2)\<rparr>) p2 = r2"
proof -
  let ?hpA = "hp1\<lparr>cells := (cells hp1)(p1 := r1)\<rparr>"
  let ?hp' = "hp2\<lparr>cells := (cells hp2)(p2 := r2)\<rparr>"
  have c1: "cells hp2 p1 = r1"
    using ensure_init_cells [OF e2 ne] by simp
  then show h1: "cells ?hp' p1 = r1" using ne by simp
  show h2: "cells ?hp' p2 = r2" by simp
  define T where "T = this\<lparr>is_aligned := - 1, b := Some p1, is_paired := True\<rparr>"
  have T2: "b2 T = b2 this" by (simp add: T_def)
  have mate: "read_mate p1 T (r2 # rest) ?hpA = Inr (T\<lparr>b := Some p2, b2 := Some p1\<rparr>, rest, ?hp')"
    by (rule read_mate_swap) (use e2 ne pd fl in \<open>simp_all add: T2\<close>)
  have st: "read_status cigar2qlen getSeqLength (T\<lparr>b := Some p2, b2 := Some p1\<rparr>) ?hp' =
      Inr (T\<lparr>b := Some p2, b2 := Some p1,
             is_aligned := (if bam_is_mapped (cells ?hp' p2) then 1 else 0) OR
                           (if bam_is_mapped (cells ?hp' p1) then 2 else 0)\<rparr>)"
  proof (rule read_status_paired)
    show "b (T\<lparr>b := Some p2, b2 := Some p1\<rparr>) = Some p2" by simp
    show "b2 (T\<lparr>b := Some p2, b2 := Some p1\<rparr>) = Some p1" by simp
    show "is_paired (T\<lparr>b := Some p2, b2 := Some p1\<rparr>)" by (simp add: T_def)
    show "bam_is_mapped (cells ?hp' p2) \<longrightarrow>
           (if l_qseq (core (cells ?hp' p2)) \<le> 0 then getSeqLength 1
            else l_qseq (core (cells ?hp' p2))) = cigar2qlen (cells ?hp' p2)"
      unfolding h2 by (rule len1)
    show "bam_is_mapped (cells ?hp' p1) \<longrightarrow>
           (if l_qseq (core (cells ?hp' p1)) \<le> 0 then getSeqLength 2
            else l_qseq (core (cells ?hp' p1))) = cigar2qlen (cells ?hp' p1)"
      unfolding h1 by (rule len2)
  qed
  have "read cigar2qlen getSeqLength this (r1 # r2 # rest) hp =
      (case read_mate p1 T (r2 # rest) ?hpA of Inl e \<Rightarrow> Inl e
       | Inr (this3, inp3, hp3) \<Rightarrow>
           (case read_status cigar2qlen getSeqLength this3 hp3 of Inl e \<Rightarrow> Inl e
            | Inr this4 \<Rightarrow> Inr (True, this4, inp3, hp3)))"
    using pd(1) by (simp add: read_def e1 Let_def T_def)
  also have "\<dots> = Inr (True, T\<lparr>b := Some p2, b2 := Some p1,
             is_aligned := (if bam_is_mapped (cells ?hp' p2) then 1 else 0) OR
                           (if bam_is_mapped (cells ?hp' p1) then 2 else 0)\<rparr>, rest, ?hp')"
    by (simp only: mate st sum.case prod.case)
  also have "\<dots> = Inr (True,
                this\<lparr>is_aligned := (if bam_is_mapped r2 then 1 else 0) OR
                                      (if bam_is_mapped r1 then 2 else 0),
                      is_paired := True, b := Some p2, b2 := Some p1\<rparr>,
                rest, ?hp')"
    unfolding h1 h2 by (simp add: T_def)
  finally show "read cigar2qlen getSeqLength this (r1 # r2 # rest) hp =
           Inr (True,
                this\<lparr>is_aligned := (if bam_is_mapped r2 then 1 else 0) OR
                                      (if bam_is_mapped r1 then 2 else 0),
                      is_paired := True, b := Some p2, b2 := Some p1\<rparr>,
                rest, ?hp')" .
qed

text \<open>
  C6. \<open>p1\<close> and \<open>p2\<close> are the buffers \<open>b\<close> and \<open>b2\<close> of the object (allocated by the call
  where they were \<open>NULL\<close>). When the record read first is flagged second in pair and the
  record read second is flagged first in pair, and the two length checks hold, \<open>read\<close>
  returns a unit whose \<open>b\<close> is \<open>p2\<close> and whose \<open>b2\<close> is \<open>p1\<close>: each record is still in the
  buffer it was read into, the pointers are exchanged, so that the first record of the
  unit is mate 1 and the second mate 2.
\<close>

theorem read_normalizes_mate_order:
  assumes "ensure_init (b this) hp = (p1, hp1)"
    and "ensure_init (b2 this) (hp1\<lparr>cells := (cells hp1)(p1 := r1)\<rparr>) = (p2, hp2)"
    and "p1 \<noteq> p2"
    and "bam_is_paired r1" and "bam_is_paired r2"
    and "bam_is_read2 r1" and "\<not> bam_is_read1 r1" and "bam_is_read1 r2" and "\<not> bam_is_read2 r2"
    and "bam_is_mapped r2 \<longrightarrow>
           (if l_qseq (core r2) \<le> 0 then getSeqLength 1 else l_qseq (core r2)) = cigar2qlen r2"
    and "bam_is_mapped r1 \<longrightarrow>
           (if l_qseq (core r1) \<le> 0 then getSeqLength 2 else l_qseq (core r1)) = cigar2qlen r1"
  shows "\<exists>this' hp'. read cigar2qlen getSeqLength this (r1 # r2 # rest) hp =
             Inr (True, this', rest, hp') \<and>
           b this' = Some p2 \<and> b2 this' = Some p1 \<and>
           cells hp' p2 = r2 \<and> cells hp' p1 = r1 \<and>
           bam_is_read1 (cells hp' p2) \<and> bam_is_read2 (cells hp' p1)"
  using read_pair_swapped(1) [OF assms, of rest] read_pair_swapped(2,3) [OF assms] assms(6,8)
  by simp

lemma example_pair_flags:
  "bam_is_paired (with_flag 0x93 r)" "bam_is_paired (with_flag 0x63 r)"
  "bam_is_read2 (with_flag 0x93 r)" "\<not> bam_is_read1 (with_flag 0x93 r)"
  "bam_is_read1 (with_flag 0x63 r)" "\<not> bam_is_read2 (with_flag 0x63 r)"
  "bam_is_mapped (with_flag 0x93 r)" "bam_is_mapped (with_flag 0x63 r)"
  "bam_is_paired (with_flag 0x99 r)" "bam_is_paired (with_flag 0x65 r)"
  "bam_is_read2 (with_flag 0x99 r)" "\<not> bam_is_read1 (with_flag 0x99 r)"
  "bam_is_read1 (with_flag 0x65 r)" "\<not> bam_is_read2 (with_flag 0x65 r)"
  "bam_is_mapped (with_flag 0x99 r)" "\<not> bam_is_mapped (with_flag 0x65 r)"
  by (simp_all add: with_flag_def bam_is_paired_def bam_is_read1_def bam_is_read2_def
      bam_is_mapped_def)

lemma new_unit_buffers:
  "ensure_init (b new_unit) empty_heap = (0, snd (ensure_init (b new_unit) empty_heap))"
  "ensure_init (b2 new_unit)
     ((snd (ensure_init (b new_unit) empty_heap))
        \<lparr>cells := (cells (snd (ensure_init (b new_unit) empty_heap)))(0 := r)\<rparr>) =
   (1, snd (ensure_init (b2 new_unit)
     ((snd (ensure_init (b new_unit) empty_heap))
        \<lparr>cells := (cells (snd (ensure_init (b new_unit) empty_heap)))(0 := r)\<rparr>)))"
  by (simp_all add: ensure_init_def bam_init1_def new_unit_def empty_heap_def)

theorem read_normalizes_mate_order_witness:
  "\<exists>this' hp'.
     read (\<lambda>_. 4) (\<lambda>_. 4) new_unit
       [with_flag 0x93 example_donor, with_flag 0x63 example_donor] empty_heap =
       Inr (True, this', [], hp') \<and>
     b this' = Some 1 \<and> b2 this' = Some 0 \<and>
     cells hp' 1 = with_flag 0x63 example_donor \<and> cells hp' 0 = with_flag 0x93 example_donor"
proof -
  have len: "l_qseq (core (with_flag f example_donor)) = 4" for f
    by (simp add: with_flag_def example_donor_def)
  from read_normalizes_mate_order [OF new_unit_buffers(1)
      new_unit_buffers(2) [of "with_flag 0x93 example_donor"],
      where ?r2.0 = "with_flag 0x63 example_donor" and getSeqLength = "\<lambda>_. 4"
        and cigar2qlen = "\<lambda>_. 4" and rest = "[]"]
  show ?thesis by (simp add: example_pair_flags len) blast
qed

theorem read_pairing_violation_fatal_witness:
  "bam_is_paired (with_flag 0x63 example_donor) \<and>
   \<not> mates_complementary (with_flag 0x63 example_donor) (with_flag 0x63 example_donor) \<and>
   (\<exists>msg. read (\<lambda>_. 4) (\<lambda>_. 4) new_unit
      [with_flag 0x63 example_donor, with_flag 0x63 example_donor] empty_heap = Inl (Fatal msg))"
proof -
  have nc: "\<not> mates_complementary (with_flag 0x63 example_donor) (with_flag 0x63 example_donor)"
    by (simp add: mates_complementary_def example_pair_flags)
  from read_pairing_violation_fatal [of "with_flag 0x63 example_donor"
      "[with_flag 0x63 example_donor]" "\<lambda>_. 4" "\<lambda>_. 4" new_unit empty_heap]
  show ?thesis using nc by (simp add: example_pair_flags)
qed

lemma example_inorder_flags:
  "bam_is_paired (with_flag 0x49 r)" "\<not> bam_is_read2 (with_flag 0x49 r)"
  "bam_is_mapped (with_flag 0x49 r)" "\<not> bam_is_mapped (with_flag 0x85 r)"
  by (simp_all add: with_flag_def bam_is_paired_def bam_is_read2_def bam_is_mapped_def)

lemma read_inorder_run:
  "\<exists>this' hp'. read (\<lambda>_. 4) (\<lambda>_. 4) new_unit
       [with_flag 0x49 example_donor, with_flag 0x85 example_donor] empty_heap =
       Inr (True, this', [], hp')"
  by (simp add: read_def read_mate_def read_status_def ensure_init_def bam_init1_def
      new_unit_def empty_heap_def with_flag_def example_donor_def Let_def
      bam_is_paired_def bam_is_read2_def bam_is_mapped_def)

theorem read_alignment_status_witness:
  "(\<exists>this' hp' q.
      read (\<lambda>_. 4) (\<lambda>_. 4) new_unit
        [with_flag 0x99 example_donor, with_flag 0x65 example_donor] empty_heap =
        Inr (True, this', [], hp') \<and>
      is_paired this' \<and> b this' = Some q \<and> cells hp' q = with_flag 0x65 example_donor \<and>
      is_aligned this' = 2) \<and>
   (\<exists>this' hp' q.
      read (\<lambda>_. 4) (\<lambda>_. 4) new_unit
        [with_flag 0x49 example_donor, with_flag 0x85 example_donor] empty_heap =
        Inr (True, this', [], hp') \<and>
      is_paired this' \<and> b this' = Some q \<and> cells hp' q = with_flag 0x49 example_donor \<and>
      is_aligned this' = 1)"
proof
  let ?r1 = "with_flag 0x99 example_donor" and ?r2 = "with_flag 0x65 example_donor"
  have len: "l_qseq (core (with_flag f example_donor)) = 4" for f
    by (simp add: with_flag_def example_donor_def)
  have hyps: "bam_is_mapped ?r2 \<longrightarrow>
      (if l_qseq (core ?r2) \<le> 0 then (\<lambda>_. 4) 1 else l_qseq (core ?r2)) = (\<lambda>_. 4) ?r2"
    "bam_is_mapped ?r1 \<longrightarrow>
      (if l_qseq (core ?r1) \<le> 0 then (\<lambda>_. 4) 2 else l_qseq (core ?r1)) = (\<lambda>_. 4) ?r1"
    by (simp_all add: len)
  note run = read_pair_swapped(1) [OF new_unit_buffers(1) new_unit_buffers(2) [of ?r1] _
      example_pair_flags(9,10,11,12,13,14) hyps, of "[]"]
  then obtain this' hp' where r: "read (\<lambda>_. 4) (\<lambda>_. 4) new_unit [?r1, ?r2] empty_heap =
      Inr (True, this', [], hp')"
    by simp
  from read_alignment_status [OF r]
  show "\<exists>this' hp' q.
      read (\<lambda>_. 4) (\<lambda>_. 4) new_unit [?r1, ?r2] empty_heap = Inr (True, this', [], hp') \<and>
      is_paired this' \<and> b this' = Some q \<and> cells hp' q = ?r2 \<and> is_aligned this' = 2"
    using r by (auto simp: example_pair_flags)
next
  let ?r1 = "with_flag 0x49 example_donor" and ?r2 = "with_flag 0x85 example_donor"
  from read_inorder_run obtain this' hp' where
    r: "read (\<lambda>_. 4) (\<lambda>_. 4) new_unit [?r1, ?r2] empty_heap = Inr (True, this', [], hp')"
    by blast
  from read_alignment_status [OF r]
  show "\<exists>this' hp' q.
      read (\<lambda>_. 4) (\<lambda>_. 4) new_unit [?r1, ?r2] empty_heap = Inr (True, this', [], hp') \<and>
      is_paired this' \<and> b this' = Some q \<and> cells hp' q = ?r1 \<and> is_aligned this' = 1"
    using r by (auto simp: example_inorder_flags)
qed

subsection \<open>Writing a unit\<close>

lemma reset_l_qseq_cells:
  "cells (reset_l_qseq p hp) q =
     (if q = p \<and> l_qname (core (cells hp p)) = 1
      then (cells hp p)\<lparr>core := (core (cells hp p))\<lparr>l_qseq := 0\<rparr>\<rparr>
      else cells hp q)"
  by (simp add: reset_l_qseq_def)

text \<open>
  C10. \<open>write\<close> is its \<open>switch\<close> run on the heap \<open>hp1\<close> that the first two statements
  leave. In \<open>hp1\<close> each record of the unit whose name-length field is 1 has the sequence
  length 0 and is otherwise as before, and each record with another name-length field is
  as before.
\<close>

theorem write_resets_legacy_l_qseq:
  assumes "b this = Some p1" and "0 \<le> is_aligned this"
    and "is_paired this \<longrightarrow> b2 this = Some p2 \<and> p2 \<noteq> p1"
    and "hp1 = write_reset this p1 (b2 this) hp"
  shows "cells hp1 p1 =
           (if l_qname (core (cells hp p1)) = 1
            then (cells hp p1)\<lparr>core := (core (cells hp p1))\<lparr>l_qseq := 0\<rparr>\<rparr>
            else cells hp p1) \<and>
         (is_paired this \<longrightarrow>
            cells hp1 p2 =
              (if l_qname (core (cells hp p2)) = 1
               then (cells hp p2)\<lparr>core := (core (cells hp p2))\<lparr>l_qseq := 0\<rparr>\<rparr>
               else cells hp p2)) \<and>
         write fresh this out choice o_unit hp =
           (case write_action fresh this p1 (b2 this) choice o_unit hp1 of
              Inl e \<Rightarrow> Inl e
            | Inr hp2 \<Rightarrow>
                Inr (True, hp2,
                     if is_paired this then out @ [cells hp2 p1, cells hp2 p2]
                     else out @ [cells hp2 p1]))"
proof (intro conjI impI)
  show "cells hp1 p1 =
           (if l_qname (core (cells hp p1)) = 1
            then (cells hp p1)\<lparr>core := (core (cells hp p1))\<lparr>l_qseq := 0\<rparr>\<rparr>
            else cells hp p1)"
    using assms(3)
    by (cases "b2 this") (auto simp: assms(4) write_reset_def Let_def reset_l_qseq_cells)
  show "cells hp1 p2 =
              (if l_qname (core (cells hp p2)) = 1
               then (cells hp p2)\<lparr>core := (core (cells hp p2))\<lparr>l_qseq := 0\<rparr>\<rparr>
               else cells hp p2)" if "is_paired this"
    using assms(3) that
    by (auto simp: assms(4) write_reset_def Let_def reset_l_qseq_cells)
  show "write fresh this out choice o_unit hp =
           (case write_action fresh this p1 (b2 this) choice o_unit hp1 of
              Inl e \<Rightarrow> Inl e
            | Inr hp2 \<Rightarrow>
                Inr (True, hp2,
                     if is_paired this then out @ [cells hp2 p1, cells hp2 p2]
                     else out @ [cells hp2 p1]))"
    using assms(1,2,3)
    by (cases "b2 this")
      (auto simp: write_def assms(4) Let_def BamWriter_write_def split: sum.splits)
qed

theorem write_resets_legacy_l_qseq_witness:
  "l_qname (core (cells legacy_heap 0)) = 1 \<and> l_qseq (core (cells legacy_heap 0)) = 4 \<and>
   l_qname (core (cells legacy_heap 1)) = 4 \<and>
   write (\<lambda>_. 0) pair_unit [] 0 None legacy_heap =
     Inr (True, write_reset pair_unit 0 (b2 pair_unit) legacy_heap,
          [legacy_record\<lparr>core := (core legacy_record)\<lparr>l_qseq := 0\<rparr>\<rparr>,
           with_flag 0x93 example_donor])"
proof -
  have v: "cells legacy_heap 0 = legacy_record" "cells legacy_heap 1 = with_flag 0x93 example_donor"
    "l_qname (core legacy_record) = 1" "l_qseq (core legacy_record) = 4"
    "l_qname (core (with_flag 0x93 example_donor)) = 4"
    by (simp_all add: legacy_heap_def legacy_record_def with_flag_def example_donor_def)
  have u: "b pair_unit = Some 0" "0 \<le> is_aligned pair_unit"
    "is_paired pair_unit \<longrightarrow> b2 pair_unit = Some 1 \<and> (1::nat) \<noteq> 0"
    by (simp_all add: pair_unit_def)
  from write_resets_legacy_l_qseq [OF u refl, of legacy_heap "\<lambda>_. 0" "[]" 0 None]
  show ?thesis
    by (simp add: v v [unfolded One_nat_def] write_action_def pair_unit_def)
qed

text \<open>
  C1 fails on the code. Both mates of the unit are compacted and the donor's name slot has
  one padding null. After mate 1 is decompressed its padding-null count is the donor's,
  1, so the test for mate 2 computes 4 - 1 = 3: mate 2 is written as it was, still
  compacted, although its own logical name length is 1.
\<close>

theorem write_decompress_skips_mate2:
  "compacted (cells pair_heap 0) \<and> compacted (cells pair_heap 1) \<and>
   (case write (\<lambda>_. 0) pair_unit [] 2 (Some donor_unit) pair_heap of
      Inl e \<Rightarrow> False
    | Inr (ok, hp', out) \<Rightarrow>
        map logical_name_length out = [3, 1] \<and> out ! 1 = cells pair_heap 1)"
  by (simp add: compacted_def logical_name_length_def pair_heap_def pair_unit_def donor_unit_def
      with_flag_def example_compacted_def example_donor_def
      write_def write_reset_def reset_l_qseq_def write_action_def decompress_at_def
      decompress_def decompress_header_def expand_data_size_def BamWriter_write_def
      bam_get_l_aux_def bam_get_aux_def bam_get_cigar_def bam_get_qname_def bam_get_seq_def
      bam_get_qual_def bam_is_rev_def memmove_def memcpy_def mem_read_def mem_write_def
      region_def copy_rc_seq_def copy_r_qual_def Let_def signed_divide_int_def)

theorem write_decompress_skips_mate2_witness:
  "\<exists>ok hp' out.
     write (\<lambda>_. 0) pair_unit [] 2 (Some donor_unit) pair_heap = Inr (ok, hp', out) \<and>
     uncompacted (out ! 0) \<and> compacted (out ! 1)"
proof (cases "write (\<lambda>_. 0) pair_unit [] 2 (Some donor_unit) pair_heap")
  case (Inl e)
  with write_decompress_skips_mate2 show ?thesis by simp
next
  case (Inr res)
  obtain ok hp' out where res: "res = (ok, hp', out)" by (cases res)
  from write_decompress_skips_mate2 have "map logical_name_length out = [3, 1]"
    by (simp add: Inr res)
  then have "logical_name_length (out ! 0) = 3" "logical_name_length (out ! 1) = 1"
    by (auto simp: map_eq_Cons_conv)
  then show ?thesis by (simp add: Inr res compacted_def uncompacted_def)
qed

subsection \<open>The complement table\<close>

lemma below_16_cases:
  assumes "c < (16::nat)"
  shows "c \<in> {0, 1, 2, 3, 4, 5, 6, 7, 8, 9, 10, 11, 12, 13, 14, 15}"
  using assms by (simp only: insert_iff empty_iff) arith

text \<open>
  C4. A packed code has a defined complement when its table entry is not 0; these are
  the codes 1, 2, 4, 8 and 15, and for each of them looking the table up twice gives
  the code back.
\<close>

theorem rnt_table_involution:
  assumes "c < 16"
  shows "(rnt_table ! c \<noteq> 0 \<longleftrightarrow> c \<in> {1, 2, 4, 8, 15}) \<and>
         (rnt_table ! c \<noteq> 0 \<longrightarrow> rnt_table ! unat (rnt_table ! c) = of_nat c)"
  using below_16_cases [OF assms] by (auto simp: rnt_table_def)

theorem rnt_table_involution_witness:
  "(8::nat) < 16 \<and> rnt_table ! 8 = 1 \<and> rnt_table ! unat (rnt_table ! 8) = of_nat 8"
  using rnt_table_involution [of 8] by (simp add: rnt_table_def)

end
